theory Spec2Isabelle
  imports Complex_Main "HOL-Library.Word"
begin

unbundle bit_operations_syntax

section \<open>Values of the host language\<close>

text \<open>
  The voice pipeline of the repository is TypeScript running in a browser. A string is a
  sequence of UTF-16 code units, a \<^verbatim>\<open>Uint8Array\<close> a sequence of bytes, an
  \<^verbatim>\<open>Int16Array\<close> a sequence of two's-complement 16-bit integers. Audio samples are
  IEEE numbers; every sample the codec handles is a finite \<^verbatim>\<open>Float32\<close> value, and on
  such values the two arithmetic steps of the codec (multiplication by \<open>32768\<close>, division
  of a 16-bit integer by \<open>32768\<close>) are exact, so samples are modelled as \<^typ>\<open>real\<close>.
  Exceptions of the platform are values of \<open>js_error\<close>.
\<close>

type_synonym byte = "8 word"

type_synonym int16 = "16 word"

type_synonym code_unit = "16 word"

type_synonym jstring = "code_unit list"

datatype js_error =
  InvalidCharacterError | RangeError | NotSupportedError | InvalidStateError | TypeError

definition js :: "string \<Rightarrow> jstring" where
  "js s = map (\<lambda>c. of_nat (of_char c)) s"

subsection \<open>Numbers\<close>

text \<open>
  A time of the playback scheduler (\<^verbatim>\<open>nextStartTime\<close>, \<^verbatim>\<open>currentTime\<close>, the
  duration of a buffer) is a \<^verbatim>\<open>Number\<close>, an IEEE 754 binary64 value. The finite
  doubles are modelled as the reals they denote. An addition or a division of the
  language gives the double nearest to the exact result, ties to the even significand
  (\<open>roundTiesToEven\<close>); \<^verbatim>\<open>Math.max\<close> and the comparisons are exact. A double has a
  significand of 53 bits: in the binade \<open>2 ^ e \<le> \<bar>x\<bar> < 2 ^ (e + 1)\<close> the doubles are
  the multiples of \<open>2 ^ (e - 52)\<close>, and below \<open>2 ^ (- 1022)\<close> (the subnormal range) the
  multiples of \<open>2 ^ (- 1074)\<close>. The upper end of the exponent range is not modelled: a
  sum overflows only beyond \<open>2 ^ 1024\<close>, which a clock reading and the duration of a
  payload (a string of fewer than \<open>2 ^ 53\<close> code units) do not reach. \<open>double x\<close> says
  that the real \<open>x\<close> is a double.
\<close>

definition round_half_even :: "real \<Rightarrow> int" where
  "round_half_even y =
     (let f = \<lfloor>y\<rfloor> in
      if y - of_int f < 1 / 2 then f
      else if 1 / 2 < y - of_int f then f + 1
      else if even f then f else f + 1)"

definition binade :: "real \<Rightarrow> int" where
  "binade x = max \<lfloor>log 2 \<bar>x\<bar>\<rfloor> (- 1022)"

definition ulp :: "real \<Rightarrow> real" where
  "ulp x = 2 powr (of_int (binade x) - 52)"

definition roundTiesToEven :: "real \<Rightarrow> real" where
  "roundTiesToEven x = (if x = 0 then 0 else of_int (round_half_even (x / ulp x)) * ulp x)"

definition double :: "real \<Rightarrow> bool" where
  "double x \<longleftrightarrow> roundTiesToEven x = x"

section \<open>Base64 transport encoding (\<^verbatim>\<open>btoa\<close>, \<^verbatim>\<open>atob\<close>)\<close>

text \<open>
  \<^verbatim>\<open>encode\<close> builds a binary string with \<^verbatim>\<open>String.fromCharCode(bytes[i])\<close> and passes it
  to \<^verbatim>\<open>btoa\<close>; \<^verbatim>\<open>decode\<close> passes its argument to \<^verbatim>\<open>atob\<close> and reads the result back
  with \<^verbatim>\<open>charCodeAt\<close>. A binary string is represented by its bytes: every code unit that
  \<^verbatim>\<open>String.fromCharCode\<close> makes of a byte is below 256, so the
  \<^verbatim>\<open>InvalidCharacterError\<close> of \<^verbatim>\<open>btoa\<close> cannot arise in \<^verbatim>\<open>encode\<close>.
  \<^verbatim>\<open>atob\<close> follows the forgiving-base64 decoding of the platform: ASCII whitespace is
  removed, one or two trailing \<^verbatim>\<open>=\<close> are removed when the length is a multiple of four,
  a length of one modulo four or a character outside the alphabet is an error.
\<close>

definition b64_char :: "nat \<Rightarrow> code_unit" where
  "b64_char v =
     (if v < 26 then of_nat (65 + v)
      else if v < 52 then of_nat (97 + (v - 26))
      else if v < 62 then of_nat (v - 4)
      else if v = 62 then 43 else 47)"

definition b64_index :: "code_unit \<Rightarrow> nat option" where
  "b64_index c =
     (let n = unat c in
      if 65 \<le> n \<and> n \<le> 90 then Some (n - 65)
      else if 97 \<le> n \<and> n \<le> 122 then Some (n - 71)
      else if 48 \<le> n \<and> n \<le> 57 then Some (n + 4)
      else if n = 43 then Some 62
      else if n = 47 then Some 63
      else None)"

definition ascii_whitespace :: "code_unit \<Rightarrow> bool" where
  "ascii_whitespace c \<longleftrightarrow> c \<in> {9, 10, 12, 13, 32}"

fun bytes_sextets :: "byte list \<Rightarrow> nat list" where
  "bytes_sextets [] = []"
| "bytes_sextets [a] = [unat a div 4, unat a mod 4 * 16]"
| "bytes_sextets [a, b] =
     [unat a div 4, unat a mod 4 * 16 + unat b div 16, unat b mod 16 * 4]"
| "bytes_sextets (a # b # c # bs) =
     [unat a div 4, unat a mod 4 * 16 + unat b div 16,
      unat b mod 16 * 4 + unat c div 64, unat c mod 64] @ bytes_sextets bs"

definition btoa :: "byte list \<Rightarrow> jstring" where
  "btoa bs =
     (let body = map b64_char (bytes_sextets bs)
      in body @ replicate ((4 - length body mod 4) mod 4) 61)"

fun sextets_bytes :: "nat list \<Rightarrow> byte list" where
  "sextets_bytes [] = []"
| "sextets_bytes [p] = []"
| "sextets_bytes [p, q] = [of_nat (p * 4 + q div 16)]"
| "sextets_bytes [p, q, r] = [of_nat (p * 4 + q div 16), of_nat (q mod 16 * 16 + r div 4)]"
| "sextets_bytes (p # q # r # s # vs) =
     [of_nat (p * 4 + q div 16), of_nat (q mod 16 * 16 + r div 4), of_nat (r mod 4 * 64 + s)]
       @ sextets_bytes vs"

definition strip_padding :: "jstring \<Rightarrow> jstring" where
  "strip_padding d =
     (if length d mod 4 = 0 \<and> d \<noteq> [] \<and> last d = 61 then
        (let d' = butlast d in if d' \<noteq> [] \<and> last d' = 61 then butlast d' else d')
      else d)"

definition atob :: "jstring \<Rightarrow> js_error + byte list" where
  "atob s =
     (let d = strip_padding (filter (\<lambda>c. \<not> ascii_whitespace c) s) in
      if length d mod 4 = 1 then Inl InvalidCharacterError
      else case those (map b64_index d) of
             None \<Rightarrow> Inl InvalidCharacterError
           | Some vs \<Rightarrow> Inr (sextets_bytes vs))"

text \<open>The two helpers of the source: \<^verbatim>\<open>encode(bytes)\<close> and \<^verbatim>\<open>decode(base64)\<close>.\<close>

definition encode :: "byte list \<Rightarrow> jstring" where
  "encode bytes = btoa bytes"

definition decode :: "jstring \<Rightarrow> js_error + byte list" where
  "decode base64 = atob base64"

section \<open>PCM frame codec\<close>

text \<open>
  Storing a number into an \<^verbatim>\<open>Int16Array\<close> element applies the language's
  \<^verbatim>\<open>ToInt16\<close>: the number is truncated towards zero and reduced modulo \<open>2 ^ 16\<close> into
  the signed 16-bit range. Nothing clamps. The \<^verbatim>\<open>Uint8Array\<close> view of the same buffer
  shows each element as two bytes, low byte first.
\<close>

definition js_trunc :: "real \<Rightarrow> int" where
  "js_trunc x = (if 0 \<le> x then \<lfloor>x\<rfloor> else \<lceil>x\<rceil>)"

definition ToInt16 :: "real \<Rightarrow> int16" where
  "ToInt16 x = word_of_int (js_trunc x)"

definition int16_bytes :: "int16 \<Rightarrow> byte list" where
  "int16_bytes w = [ucast w, ucast (drop_bit 8 w)]"

definition bytes_int16 :: "byte \<Rightarrow> byte \<Rightarrow> int16" where
  "bytes_int16 lo hi = push_bit 8 (ucast hi) OR ucast lo"

fun int16_view :: "byte list \<Rightarrow> int16 list" where
  "int16_view (lo # hi # bs) = bytes_int16 lo hi # int16_view bs"
| "int16_view bs = []"

record blob =
  data :: jstring
  mimeType :: jstring

text \<open>
  \<^verbatim>\<open>createBlob(data: Float32Array)\<close>: the loop stores \<^verbatim>\<open>data[i] * 32768\<close> into
  \<^verbatim>\<open>int16[i]\<close>; the result carries the base64 text of the buffer's bytes.
\<close>

definition float_to_int16 :: "real list \<Rightarrow> int16 list" where
  "float_to_int16 samples = map (\<lambda>x. ToInt16 (x * 32768)) samples"

definition createBlob :: "real list \<Rightarrow> blob" where
  "createBlob samples =
     \<lparr> data = encode (concat (map int16_bytes (float_to_int16 samples))),
       mimeType = js ''audio/pcm;rate=16000'' \<rparr>"

record audio_buffer =
  sampleRate :: nat
  channelData :: "real list list"

definition frames :: "audio_buffer \<Rightarrow> nat" where
  "frames b = (case channelData b of [] \<Rightarrow> 0 | c # _ \<Rightarrow> length c)"

text \<open>
  \<^verbatim>\<open>buffer.duration\<close> is the quotient of the buffer's length and its sample rate, as a
  double.
\<close>

definition duration :: "audio_buffer \<Rightarrow> real" where
  "duration b = roundTiesToEven (real (frames b) / real (sampleRate b))"

text \<open>
  \<^verbatim>\<open>ctx.createBuffer(numChannels, frameCount, sampleRate)\<close> is the platform's call: it
  throws \<^verbatim>\<open>NotSupportedError\<close> when one of its arguments is zero, and otherwise gives
  a silent buffer. (Upper limits of an implementation are not modelled.)
\<close>

definition createBuffer :: "nat \<Rightarrow> nat \<Rightarrow> nat \<Rightarrow> js_error + audio_buffer" where
  "createBuffer numberOfChannels len rate =
     (if numberOfChannels = 0 \<or> len = 0 \<or> rate = 0 then Inl NotSupportedError
      else Inr \<lparr> sampleRate = rate,
                 channelData = replicate numberOfChannels (replicate len 0) \<rparr>)"

text \<open>
  \<^verbatim>\<open>decodeAudioData(data, ctx, sampleRate, numChannels)\<close> of \<^verbatim>\<open>App.tsx\<close>.
  \<^verbatim>\<open>new Int16Array(data.buffer)\<close> throws \<^verbatim>\<open>RangeError\<close> when the byte length is odd.
  \<^verbatim>\<open>frameCount\<close> is \<^verbatim>\<open>dataInt16.length / numChannels\<close>; the platform truncates it
  when it makes the buffer, and the writes of the loop beyond the buffer's length are
  ignored, so each channel holds \<open>length dataInt16 div numChannels\<close> frames.
\<close>

definition decodeAudioData :: "byte list \<Rightarrow> nat \<Rightarrow> nat \<Rightarrow> js_error + audio_buffer" where
  "decodeAudioData bytes rate numChannels =
     (if odd (length bytes) then Inl RangeError
      else
        let dataInt16 = int16_view bytes;
            frameCount = length dataInt16 div numChannels
        in case createBuffer numChannels frameCount rate of
             Inl e \<Rightarrow> Inl e
           | Inr buffer \<Rightarrow>
               Inr (buffer \<lparr> channelData :=
                     map (\<lambda>channel.
                            map (\<lambda>i. real_of_int (sint (dataInt16 ! (i * numChannels + channel)))
                                       / 32768)
                              [0..<frameCount])
                       [0..<numChannels] \<rparr>))"

text \<open>
  \<^verbatim>\<open>decodeAudioData\<close> of the voice-enabled assistant view
  (\<^verbatim>\<open>services/geminiService.ts\<close>) makes its view with
  \<^verbatim>\<open>new Int16Array(data.buffer, data.byteOffset, data.byteLength / 2)\<close>: the length
  argument is truncated to an integer, so the view holds \<open>length bytes div 2\<close> elements, an
  odd last byte is left out and nothing is thrown (\<^verbatim>\<open>decode\<close> makes its array at
  offset \<open>0\<close> of a buffer of its own). The rest is the same.
\<close>

definition decodeAudioData_live :: "byte list \<Rightarrow> nat \<Rightarrow> nat \<Rightarrow> js_error + audio_buffer" where
  "decodeAudioData_live bytes rate numChannels =
     (let dataInt16 = take (length bytes div 2) (int16_view bytes);
          frameCount = length dataInt16 div numChannels
      in case createBuffer numChannels frameCount rate of
           Inl e \<Rightarrow> Inl e
         | Inr buffer \<Rightarrow>
             Inr (buffer \<lparr> channelData :=
                   map (\<lambda>channel.
                          map (\<lambda>i. real_of_int (sint (dataInt16 ! (i * numChannels + channel)))
                                     / 32768)
                            [0..<frameCount])
                     [0..<numChannels] \<rparr>))"

text \<open>
  The call of the playback paths, \<^verbatim>\<open>decodeAudioData(decode(base64Audio), outCtx, 24000, 1)\<close>,
  in \<^verbatim>\<open>App.tsx\<close> and in the voice-enabled assistant view.
\<close>

definition decodeFrame :: "jstring \<Rightarrow> js_error + audio_buffer" where
  "decodeFrame base64Audio =
     (case decode base64Audio of
        Inl e \<Rightarrow> Inl e
      | Inr bytes \<Rightarrow> decodeAudioData bytes 24000 1)"

definition decodeFrame_live :: "jstring \<Rightarrow> js_error + audio_buffer" where
  "decodeFrame_live base64Audio =
     (case decode base64Audio of
        Inl e \<Rightarrow> Inl e
      | Inr bytes \<Rightarrow> decodeAudioData_live bytes 24000 1)"

section \<open>Playback scheduler\<close>

text \<open>
  The scheduler's state is the pair of refs \<^verbatim>\<open>nextStartTime\<close> and \<^verbatim>\<open>sources\<close> (a
  \<^verbatim>\<open>Set\<close> of source nodes, kept here in insertion order), together with the source
  nodes the output context has made. A node is addressed by a handle; \<open>nodes\<close> is the
  store of the nodes' states and \<open>allocated\<close> the number of nodes made so far.
  The platform's rules for a source node: \<^verbatim>\<open>start(when)\<close> throws
  \<^verbatim>\<open>InvalidStateError\<close> on a node started before and \<^verbatim>\<open>RangeError\<close> on a negative
  time; \<^verbatim>\<open>stop()\<close> throws \<^verbatim>\<open>InvalidStateError\<close> on a node never started and has no
  effect on a node that was stopped or has ended. The clock \<^verbatim>\<open>outCtx.currentTime\<close> is an
  argument of each step. An inbound message is handled to its end before the next one.
\<close>

datatype node_status = Created | Started | Stopped | Ended

record source_node =
  status :: node_status
  startAt :: real
  buffer_duration :: real

definition node_start :: "real \<Rightarrow> source_node \<Rightarrow> js_error + source_node" where
  "node_start t n =
     (if status n \<noteq> Created then Inl InvalidStateError
      else if t < 0 then Inl RangeError
      else Inr (n \<lparr> status := Started, startAt := t \<rparr>))"

definition node_stop :: "source_node \<Rightarrow> js_error + source_node" where
  "node_stop n =
     (case status n of
        Created \<Rightarrow> Inl InvalidStateError
      | Started \<Rightarrow> Inr (n \<lparr> status := Stopped \<rparr>)
      | Stopped \<Rightarrow> Inr n
      | Ended \<Rightarrow> Inr n)"

definition set_add :: "'a \<Rightarrow> 'a list \<Rightarrow> 'a list" where
  "set_add x xs = (if x \<in> set xs then xs else xs @ [x])"

definition set_delete :: "'a \<Rightarrow> 'a list \<Rightarrow> 'a list" where
  "set_delete x xs = removeAll x xs"

record playback =
  nextStartTime :: real
  sources :: "nat list"
  nodes :: "nat \<Rightarrow> source_node"
  allocated :: nat

text \<open>
  The audio branch of \<^verbatim>\<open>onmessage\<close>. Its last statements are the same in
  \<^verbatim>\<open>App.tsx\<close> and in the voice-enabled assistant view (\<open>schedule_source\<close>): a source
  is made for the decoded buffer and started at \<^verbatim>\<open>nextStartTime\<close>, then
  \<^verbatim>\<open>nextStartTime += buffer.duration\<close> and the source joins the set. Before them, in
  \<^verbatim>\<open>App.tsx\<close>, \<^verbatim>\<open>nextStartTime\<close> is raised to the clock and the payload is decoded
  (an exception ends the handler there). The branch is entered when the payload is a
  non-empty string.
\<close>

definition schedule_source ::
  "audio_buffer \<Rightarrow> 'a playback_scheme \<Rightarrow> 'a playback_scheme \<times> js_error option" where
  "schedule_source buffer st =
     (let source = allocated st;
          node = \<lparr> status = Created, startAt = 0, buffer_duration = duration buffer \<rparr>;
          st2 = st \<lparr> nodes := (nodes st) (source := node), allocated := Suc source \<rparr>
      in case node_start (nextStartTime st2) node of
           Inl e \<Rightarrow> (st2, Some e)
         | Inr started \<Rightarrow>
             (st2 \<lparr> nodes := (nodes st2) (source := started),
                    nextStartTime := roundTiesToEven (nextStartTime st2 + duration buffer),
                    sources := set_add source (sources st2) \<rparr>, None))"

definition audio_branch_App ::
  "jstring option \<Rightarrow> real \<Rightarrow> 'a playback_scheme \<Rightarrow> 'a playback_scheme \<times> js_error option" where
  "audio_branch_App base64Audio currentTime st =
     (case base64Audio of
        None \<Rightarrow> (st, None)
      | Some b \<Rightarrow>
          if b = [] then (st, None)
          else
            let st1 = st \<lparr> nextStartTime := max (nextStartTime st) currentTime \<rparr> in
            case decodeFrame b of
              Inl e \<Rightarrow> (st1, Some e)
            | Inr buffer \<Rightarrow> schedule_source buffer st1)"

text \<open>
  The interrupted branch. The assistant view wraps each \<^verbatim>\<open>s.stop()\<close> in
  \<^verbatim>\<open>try { } catch(e) {}\<close>; \<^verbatim>\<open>App.tsx\<close> calls \<^verbatim>\<open>s.stop()\<close> bare, so an exception
  leaves the loop and the two statements after it.
\<close>

fun stop_each :: "nat list \<Rightarrow> (nat \<Rightarrow> source_node) \<Rightarrow> (nat \<Rightarrow> source_node)" where
  "stop_each [] ns = ns"
| "stop_each (s # ss) ns =
     (case node_stop (ns s) of
        Inl e \<Rightarrow> stop_each ss ns
      | Inr n \<Rightarrow> stop_each ss (ns (s := n)))"

fun stop_each_unguarded ::
  "nat list \<Rightarrow> (nat \<Rightarrow> source_node) \<Rightarrow> (nat \<Rightarrow> source_node) \<times> js_error option" where
  "stop_each_unguarded [] ns = (ns, None)"
| "stop_each_unguarded (s # ss) ns =
     (case node_stop (ns s) of
        Inl e \<Rightarrow> (ns, Some e)
      | Inr n \<Rightarrow> stop_each_unguarded ss (ns (s := n)))"

record live_playback = playback +
  isSpeaking :: bool
  isThinking :: bool

text \<open>
  The audio branch of the voice-enabled assistant view: it begins with
  \<^verbatim>\<open>setIsSpeaking(true); setIsThinking(false)\<close> and decodes with its own
  \<^verbatim>\<open>decodeAudioData\<close>.
\<close>

definition audio_branch ::
  "jstring option \<Rightarrow> real \<Rightarrow> 'a live_playback_scheme
     \<Rightarrow> 'a live_playback_scheme \<times> js_error option" where
  "audio_branch base64Audio currentTime st =
     (case base64Audio of
        None \<Rightarrow> (st, None)
      | Some b \<Rightarrow>
          if b = [] then (st, None)
          else
            let st0 = st \<lparr> isSpeaking := True, isThinking := False \<rparr>;
                st1 = st0 \<lparr> nextStartTime := max (nextStartTime st0) currentTime \<rparr>
            in case decodeFrame_live b of
                 Inl e \<Rightarrow> (st1, Some e)
               | Inr buffer \<Rightarrow> schedule_source buffer st1)"

definition interrupted_branch :: "'a live_playback_scheme \<Rightarrow> 'a live_playback_scheme" where
  "interrupted_branch st =
     st \<lparr> nodes := stop_each (sources st) (nodes st), sources := [], nextStartTime := 0,
          isSpeaking := False, isThinking := False \<rparr>"

definition interrupted_branch_App :: "'a playback_scheme \<Rightarrow> 'a playback_scheme \<times> js_error option" where
  "interrupted_branch_App st =
     (case stop_each_unguarded (sources st) (nodes st) of
        (ns, Some e) \<Rightarrow> (st \<lparr> nodes := ns \<rparr>, Some e)
      | (ns, None) \<Rightarrow> (st \<lparr> nodes := ns, sources := [], nextStartTime := 0 \<rparr>, None))"

text \<open>The \<^verbatim>\<open>ended\<close> callback of a source: the source leaves the set.\<close>

definition on_ended :: "nat \<Rightarrow> 'a playback_scheme \<Rightarrow> 'a playback_scheme" where
  "on_ended source st =
     (if status (nodes st source) = Started \<or> status (nodes st source) = Stopped then
        st \<lparr> nodes := (nodes st) (source := (nodes st source) \<lparr> status := Ended \<rparr>),
             sources := set_delete source (sources st) \<rparr>
      else st)"

definition stopped :: "source_node \<Rightarrow> source_node" where
  "stopped n = (if status n = Started then n \<lparr> status := Stopped \<rparr> else n)"

definition sources_started :: "'a playback_scheme \<Rightarrow> bool" where
  "sources_started st \<longleftrightarrow>
     list_all (\<lambda>h. h < allocated st \<and> status (nodes st h) \<noteq> Created) (sources st)"

definition fresh_playback :: playback where
  "fresh_playback =
     \<lparr> nextStartTime = 0, sources = [],
       nodes = (\<lambda>_. \<lparr> status = Created, startAt = 0, buffer_duration = 0 \<rparr>),
       allocated = 0 \<rparr>"

text \<open>
  A sequence of inbound messages, each with its audio payload and the reading of the
  output clock when it is handled, in \<^verbatim>\<open>App.tsx\<close> and in the assistant view.
\<close>

fun play_all_App :: "(jstring option \<times> real) list \<Rightarrow> 'a playback_scheme \<Rightarrow> 'a playback_scheme" where
  "play_all_App [] st = st"
| "play_all_App ((b, t) # ms) st = play_all_App ms (fst (audio_branch_App b t st))"

fun play_all ::
  "(jstring option \<times> real) list \<Rightarrow> 'a live_playback_scheme \<Rightarrow> 'a live_playback_scheme" where
  "play_all [] st = st"
| "play_all ((b, t) # ms) st = play_all ms (fst (audio_branch b t st))"

datatype playback_event = AudioChunk jstring real | SourceEnded nat | Interruption

fun playback_step_App :: "playback_event \<Rightarrow> playback \<Rightarrow> playback" where
  "playback_step_App (AudioChunk b t) st = fst (audio_branch_App (Some b) t st)"
| "playback_step_App (SourceEnded h) st = on_ended h st"
| "playback_step_App Interruption st = fst (interrupted_branch_App st)"

definition playback_run_App :: "playback_event list \<Rightarrow> playback \<Rightarrow> playback" where
  "playback_run_App evs st = fold playback_step_App evs st"

text \<open>
  For the statements about sequences of chunks: the chunks that are scheduled (a
  non-empty payload that decodes), and the relation between the sources made from
  handle \<open>a\<close> on that the scheduler maintains: \<^verbatim>\<open>nextStartTime\<close> is a double, no source
  starts after it, and the rounded end of a source is at most \<^verbatim>\<open>nextStartTime\<close> and at
  most the start of every later source.
\<close>

definition decodable_App :: "jstring option \<times> real \<Rightarrow> bool" where
  "decodable_App m =
     (case fst m of
        None \<Rightarrow> False
      | Some b \<Rightarrow> b \<noteq> [] \<and> (case decodeFrame b of Inl e \<Rightarrow> False | Inr buffer \<Rightarrow> True))"

definition decodable :: "jstring option \<times> real \<Rightarrow> bool" where
  "decodable m =
     (case fst m of
        None \<Rightarrow> False
      | Some b \<Rightarrow> b \<noteq> [] \<and> (case decodeFrame_live b of Inl e \<Rightarrow> False | Inr buffer \<Rightarrow> True))"

definition gapless_from :: "nat \<Rightarrow> 'a playback_scheme \<Rightarrow> bool" where
  "gapless_from a st \<longleftrightarrow>
     double (nextStartTime st)
     \<and> (\<forall>i. a \<le> i \<and> i < allocated st \<longrightarrow>
          roundTiesToEven (startAt (nodes st i) + buffer_duration (nodes st i)) \<le> nextStartTime st
          \<and> startAt (nodes st i) \<le> nextStartTime st
          \<and> 0 \<le> buffer_duration (nodes st i))
     \<and> (\<forall>i j. a \<le> i \<and> i < j \<and> j < allocated st \<longrightarrow>
          roundTiesToEven (startAt (nodes st i) + buffer_duration (nodes st i))
            \<le> startAt (nodes st j)
          \<and> startAt (nodes st i) \<le> startAt (nodes st j))"

text \<open>Two chunks of two frames each, both handled at clock reading \<open>1 / 4\<close>.\<close>

definition two_chunks :: "(jstring option \<times> real) list" where
  "two_chunks = [(Some (data (createBlob [0, 0])), 1 / 4), (Some (data (createBlob [0, 0])), 1 / 4)]"

definition two_in_flight :: playback where
  "two_in_flight =
     \<lparr> nextStartTime = 5 / 2, sources = [0, 1],
       nodes = (\<lambda>_. \<lparr> status = Created, startAt = 0, buffer_duration = 0 \<rparr>)
                 (0 := \<lparr> status = Ended, startAt = 0, buffer_duration = 1 \<rparr>,
                  1 := \<lparr> status = Started, startAt = 1, buffer_duration = 3 / 2 \<rparr>),
       allocated = 2 \<rparr>"

section \<open>Transcript assembler\<close>

text \<open>
  An inbound message may carry \<^verbatim>\<open>serverContent\<close> with an input transcription, an output
  transcription, the \<^verbatim>\<open>turnComplete\<close> flag and the \<^verbatim>\<open>interrupted\<close> flag; the handler
  tests them in this order. A transcription is an object whose \<^verbatim>\<open>text\<close> may be absent;
  \<^verbatim>\<open>buffer += t.text\<close> then appends the text \<^verbatim>\<open>undefined\<close>. \<^verbatim>\<open>String.prototype.trim\<close>
  removes the language's white space and line terminators from both ends.
\<close>

datatype role = User | Ai

record chat_message =
  role :: role
  msgText :: jstring

datatype transcription = Transcription (fragment: "jstring option")

record server_content =
  inlineAudio :: "jstring option"
  inputTranscription :: "transcription option"
  outputTranscription :: "transcription option"
  turnComplete :: bool
  interrupted :: bool

definition js_whitespace :: "code_unit \<Rightarrow> bool" where
  "js_whitespace c \<longleftrightarrow>
     c \<in> {9, 10, 11, 12, 13, 32, 160, 5760, 8232, 8233, 8239, 8287, 12288, 65279}
     \<or> (8192 \<le> c \<and> c \<le> 8202)"

definition trim :: "jstring \<Rightarrow> jstring" where
  "trim s = rev (dropWhile js_whitespace (rev (dropWhile js_whitespace s)))"

definition text_or_undefined :: "transcription \<Rightarrow> jstring" where
  "text_or_undefined t = (case fragment t of None \<Rightarrow> js ''undefined'' | Some s \<Rightarrow> s)"

text \<open>
  The assistant view (\<^verbatim>\<open>components/AssistantView.tsx\<close>): the two buffers are refs, the
  message log and the two live texts are component state. \<open>flush_turn\<close> is the
  \<^verbatim>\<open>turnComplete\<close> branch without the call of \<^verbatim>\<open>speak\<close>.
\<close>

record transcript =
  messages :: "chat_message list"
  userTextBuffer :: jstring
  aiTextBuffer :: jstring
  currentTurnUserText :: jstring
  currentTurnAiText :: jstring

definition inputTranscription_branch :: "transcription \<Rightarrow> 'a transcript_scheme \<Rightarrow> 'a transcript_scheme" where
  "inputTranscription_branch t st =
     (let buf = userTextBuffer st @ text_or_undefined t
      in st \<lparr> userTextBuffer := buf, currentTurnUserText := buf \<rparr>)"

definition outputTranscription_branch :: "transcription \<Rightarrow> 'a transcript_scheme \<Rightarrow> 'a transcript_scheme" where
  "outputTranscription_branch t st =
     (let buf = aiTextBuffer st @ text_or_undefined t
      in st \<lparr> aiTextBuffer := buf, currentTurnAiText := buf \<rparr>)"

definition flush_turn :: "'a transcript_scheme \<Rightarrow> 'a transcript_scheme" where
  "flush_turn st =
     (let uText = trim (userTextBuffer st);
          aText = trim (aiTextBuffer st);
          st1 = (if uText \<noteq> [] \<or> aText \<noteq> [] then
                   st \<lparr> messages := messages st
                          @ (if uText \<noteq> [] then [\<lparr> role = User, msgText = uText \<rparr>] else [])
                          @ (if aText \<noteq> [] then [\<lparr> role = Ai, msgText = aText \<rparr>] else []) \<rparr>
                 else st)
      in st1 \<lparr> userTextBuffer := [], aiTextBuffer := [],
               currentTurnUserText := [], currentTurnAiText := [] \<rparr>)"

record assistant_view = transcript +
  spoken :: "jstring list"
  speaking :: bool

definition speak :: "jstring \<Rightarrow> 'a assistant_view_scheme \<Rightarrow> 'a assistant_view_scheme" where
  "speak t st = (if t = [] then st else st \<lparr> speaking := True, spoken := spoken st @ [t] \<rparr>)"

definition turnComplete_branch :: "'a assistant_view_scheme \<Rightarrow> 'a assistant_view_scheme" where
  "turnComplete_branch st =
     (let uText = trim (userTextBuffer st);
          aText = trim (aiTextBuffer st)
      in flush_turn (if (uText \<noteq> [] \<or> aText \<noteq> []) \<and> aText \<noteq> [] then speak aText st else st))"

definition onmessage :: "server_content option \<Rightarrow> 'a assistant_view_scheme \<Rightarrow> 'a assistant_view_scheme" where
  "onmessage serverContent st =
     (case serverContent of
        None \<Rightarrow> st
      | Some sc \<Rightarrow>
          let st1 = (case inputTranscription sc of
                       None \<Rightarrow> st | Some t \<Rightarrow> inputTranscription_branch t st);
              st2 = (case outputTranscription sc of
                       None \<Rightarrow> st1 | Some t \<Rightarrow> outputTranscription_branch t st1);
              st3 = (if turnComplete sc then turnComplete_branch st2 else st2);
              st4 = (if interrupted sc then st3 \<lparr> speaking := False \<rparr> else st3)
          in st4)"

text \<open>
  Event sequences of the assembler: a partial transcript of the user or of the assistant,
  or the end of a turn, each as the message that carries it alone. A turn is the list of
  its partial transcripts; \<open>said r ps\<close> is the concatenation of the fragments of role \<open>r\<close>
  and \<open>flushed ps\<close> the messages the turn is expected to add to the log.
\<close>

datatype transcript_event = Partial role jstring | TurnComplete

definition no_content :: server_content where
  "no_content =
     \<lparr> inlineAudio = None, inputTranscription = None, outputTranscription = None,
       turnComplete = False, interrupted = False \<rparr>"

fun event_message :: "transcript_event \<Rightarrow> server_content option" where
  "event_message (Partial User s) =
     Some (no_content \<lparr> inputTranscription := Some (Transcription (Some s)) \<rparr>)"
| "event_message (Partial Ai s) =
     Some (no_content \<lparr> outputTranscription := Some (Transcription (Some s)) \<rparr>)"
| "event_message TurnComplete = Some (no_content \<lparr> turnComplete := True \<rparr>)"

definition run_events :: "transcript_event list \<Rightarrow> 'a assistant_view_scheme \<Rightarrow> 'a assistant_view_scheme" where
  "run_events evs st = fold (\<lambda>e. onmessage (event_message e)) evs st"

definition initial_view :: assistant_view where
  "initial_view =
     \<lparr> messages = [\<lparr> role = Ai, msgText = js ''Namaste! I'm ExamSaathi. I'm ready to help you with your studies. Just start speaking!'' \<rparr>],
       userTextBuffer = [], aiTextBuffer = [],
       currentTurnUserText = [], currentTurnAiText = [],
       spoken = [], speaking = False \<rparr>"

definition said :: "role \<Rightarrow> (role \<times> jstring) list \<Rightarrow> jstring" where
  "said r ps = concat (map snd (filter (\<lambda>p. fst p = r) ps))"

definition partial_events :: "(role \<times> jstring) list \<Rightarrow> transcript_event list" where
  "partial_events ps = map (\<lambda>p. Partial (fst p) (snd p)) ps"

definition turn_events :: "(role \<times> jstring) list \<Rightarrow> transcript_event list" where
  "turn_events ps = partial_events ps @ [TurnComplete]"

definition flushed :: "(role \<times> jstring) list \<Rightarrow> chat_message list" where
  "flushed ps =
     (if trim (said User ps) \<noteq> [] then [\<lparr> role = User, msgText = trim (said User ps) \<rparr>] else [])
     @ (if trim (said Ai ps) \<noteq> [] then [\<lparr> role = Ai, msgText = trim (said Ai ps) \<rparr>] else [])"

text \<open>
  The \<^verbatim>\<open>turnComplete\<close> branch of the voice-enabled assistant view
  (\<^verbatim>\<open>services/geminiService.ts\<close>): the same flush, then \<^verbatim>\<open>setIsThinking(false)\<close>.
\<close>

definition turnComplete_branch_live ::
  "'a live_playback_scheme \<times> 'b transcript_scheme \<Rightarrow> 'a live_playback_scheme \<times> 'b transcript_scheme" where
  "turnComplete_branch_live st = (case st of (ui, tr) \<Rightarrow> (ui \<lparr> isThinking := False \<rparr>, flush_turn tr))"

definition trimmed :: "jstring \<Rightarrow> bool" where
  "trimmed t \<longleftrightarrow> t \<noteq> [] \<and> \<not> js_whitespace (hd t) \<and> \<not> js_whitespace (last t)"

definition initial_live :: live_playback where
  "initial_live = playback.extend fresh_playback \<lparr> isSpeaking = False, isThinking = False \<rparr>"

definition whitespace_turn :: assistant_view where
  "whitespace_turn = initial_view \<lparr> userTextBuffer := js ''  '', aiTextBuffer := [10, 160] \<rparr>"

definition spaced_turn :: assistant_view where
  "spaced_turn =
     initial_view \<lparr> userTextBuffer := js '' hi  there  '',
                    aiTextBuffer := [160, 9] @ js ''ok'' @ [10, 8232] \<rparr>"

section \<open>Session transport: the connection promise\<close>


record function_response =
  fr_id :: jstring
  fr_name :: jstring
  fr_result :: jstring

datatype session_call = RealtimeInput blob | ToolResponse function_response | Close

datatype promise_state = Pending "session_call list" | Fulfilled | Rejected

record connection =
  promise :: promise_state
  microtasks :: "session_call list"
  calls :: "session_call list"

definition promise_then :: "session_call \<Rightarrow> 'a connection_scheme \<Rightarrow> 'a connection_scheme" where
  "promise_then r c =
     (case promise c of
        Pending q \<Rightarrow> c \<lparr> promise := Pending (q @ [r]) \<rparr>
      | Fulfilled \<Rightarrow> c \<lparr> microtasks := microtasks c @ [r] \<rparr>
      | Rejected \<Rightarrow> c)"

definition promise_fulfil :: "'a connection_scheme \<Rightarrow> 'a connection_scheme" where
  "promise_fulfil c =
     (case promise c of
        Pending q \<Rightarrow> c \<lparr> promise := Fulfilled, microtasks := microtasks c @ q \<rparr>
      | Fulfilled \<Rightarrow> c
      | Rejected \<Rightarrow> c)"

definition promise_reject :: "'a connection_scheme \<Rightarrow> 'a connection_scheme" where
  "promise_reject c =
     (case promise c of
        Pending q \<Rightarrow> c \<lparr> promise := Rejected \<rparr>
      | Fulfilled \<Rightarrow> c
      | Rejected \<Rightarrow> c)"

definition run_microtasks :: "'a connection_scheme \<Rightarrow> 'a connection_scheme" where
  "run_microtasks c = c \<lparr> calls := calls c @ microtasks c, microtasks := [] \<rparr>"

definition new_connection :: connection where
  "new_connection = \<lparr> promise = Pending [], microtasks = [], calls = [] \<rparr>"

text \<open>
  \<^verbatim>\<open>scriptProcessor.onaudioprocess\<close> of the assistant views, on the promise its closure
  holds: the activity level passed to \<^verbatim>\<open>setMicActivity\<close> (the root mean square of the
  frame, over the reals here; no property below depends on it) is the first component of
  the result; the frame is encoded and its submission registered on the promise.
\<close>

definition onaudioprocess :: "real list \<Rightarrow> 'a connection_scheme \<Rightarrow> real \<times> 'a connection_scheme" where
  "onaudioprocess inputData sessionPromise =
     (let level = sqrt (sum_list (map (\<lambda>x. x * x) inputData) / real (length inputData));
          pcmBlob = createBlob inputData
      in (level, promise_then (RealtimeInput pcmBlob) sessionPromise))"

text \<open>
  The tasks of the uplink of one session: a frame is captured, the remote end acknowledges
  the connection (the promise is fulfilled), or the connection is refused (the promise is
  rejected). \<open>captured\<close> lists the submissions of the frames of a task sequence.
\<close>

datatype uplink_event = AudioProcess "real list" | Acknowledged | Refused

fun uplink_task :: "uplink_event \<Rightarrow> 'a connection_scheme \<Rightarrow> 'a connection_scheme" where
  "uplink_task (AudioProcess inputData) st = run_microtasks (snd (onaudioprocess inputData st))"
| "uplink_task Acknowledged st = run_microtasks (promise_fulfil st)"
| "uplink_task Refused st = run_microtasks (promise_reject st)"

definition uplink_run :: "uplink_event list \<Rightarrow> 'a connection_scheme \<Rightarrow> 'a connection_scheme" where
  "uplink_run evs st = fold uplink_task evs st"

fun captured :: "uplink_event list \<Rightarrow> session_call list" where
  "captured [] = []"
| "captured (AudioProcess inputData # evs) = RealtimeInput (createBlob inputData) # captured evs"
| "captured (ev # evs) = captured evs"

section \<open>Voice surfaces\<close>

text \<open>
  A voice surface (the assistant view, the mini-companion of \<^verbatim>\<open>App.tsx\<close>) keeps three
  refs: the microphone stream, the processor node and the session promise
  (\<^verbatim>\<open>sessionPromise\<close> and \<^verbatim>\<open>window._scriptProcessor\<close> in \<^verbatim>\<open>App.tsx\<close>). The objects
  behind the refs belong to the platform and outlive a ref that is overwritten: they
  are addressed by handles. \<open>liveTracks\<close> holds the streams acquired whose tracks have not
  been stopped, \<open>connectedProcessors\<close> the processor nodes not disconnected,
  \<open>connections\<close> the promise and the session of every connection made,
  \<open>closedByRemote\<close> the connections the remote end has closed. \<open>stopsAwaiting\<close> lists
  the calls of \<^verbatim>\<open>stopLiveSession\<close> suspended at their \<^verbatim>\<open>await\<close> of a pending promise.
\<close>

record surface =
  streamRef :: "nat option"
  scriptProcessorRef :: "nat option"
  sessionPromiseRef :: "nat option"
  liveTracks :: "nat set"
  acquired :: nat
  connectedProcessors :: "nat set"
  created :: nat
  connections :: "nat \<Rightarrow> connection"
  opened :: nat
  closedByRemote :: "nat set"
  stopsAwaiting :: "nat list"


definition drain :: "'a surface_scheme \<Rightarrow> 'a surface_scheme" where
  "drain st =
     st \<lparr> connections := (\<lambda>k. run_microtasks (connections st k)) \<rparr>"

definition release_processor :: "'a surface_scheme \<Rightarrow> 'a surface_scheme" where
  "release_processor st =
     (case scriptProcessorRef st of
        None \<Rightarrow> st
      | Some p \<Rightarrow>
          st \<lparr> connectedProcessors := connectedProcessors st - {p},
               scriptProcessorRef := None \<rparr>)"

definition release_stream :: "'a surface_scheme \<Rightarrow> 'a surface_scheme" where
  "release_stream st =
     (case streamRef st of
        None \<Rightarrow> st
      | Some m \<Rightarrow>
          st \<lparr> liveTracks := liveTracks st - {m},
               streamRef := None \<rparr>)"

text \<open>
  The statements of \<^verbatim>\<open>stopLiveSession\<close> after \<^verbatim>\<open>await sessionPromiseRef.current\<close>, for
  the promise \<open>k\<close> that was awaited, once it is settled: on a fulfilled promise
  \<^verbatim>\<open>session.close()\<close>; a rejected promise makes the \<^verbatim>\<open>await\<close> throw into the empty
  \<^verbatim>\<open>catch\<close>; then the ref is cleared.
\<close>

definition close_session :: "nat \<Rightarrow> 'a surface_scheme \<Rightarrow> 'a surface_scheme" where
  "close_session k st =
     st \<lparr> connections :=
            (connections st) (k := (connections st k) \<lparr> calls := calls (connections st k) @ [Close] \<rparr>) \<rparr>"

definition after_await :: "nat \<Rightarrow> 'a surface_scheme \<Rightarrow> 'a surface_scheme" where
  "after_await k st =
     (let st1 = (case promise (connections st k) of
                   Pending q \<Rightarrow> st
                 | Fulfilled \<Rightarrow> close_session k st
                 | Rejected \<Rightarrow> st)
      in st1 \<lparr> sessionPromiseRef := None \<rparr>)"

datatype 'a outcome = Completed 'a | Suspended 'a

definition state_of :: "'a outcome \<Rightarrow> 'a" where
  "state_of r = (case r of Completed st \<Rightarrow> st | Suspended st \<Rightarrow> st)"

subsection \<open>The assistant views\<close>

text \<open>
  The state of an assistant view besides its scheduler and its transcript.
  \<open>inputContext\<close> is the input audio context: absent, running (\<open>Some True\<close>) or
  suspended (\<open>Some False\<close>); only \<^verbatim>\<open>components/AssistantView.tsx\<close> suspends it.
\<close>

record live_surface = surface +
  isLive :: bool
  statusText :: jstring
  micActivity :: real
  error :: "jstring option"
  inputContext :: "bool option"






text \<open>
  \<^verbatim>\<open>stopLiveSession\<close> of \<^verbatim>\<open>components/AssistantView.tsx\<close> (a view without playback):
  the same without the first step, and the input context is suspended before the view is
  set inactive.
\<close>

definition set_inactive_AV :: "'a live_surface_scheme \<Rightarrow> 'a live_surface_scheme" where
  "set_inactive_AV s =
     (let s1 = (case inputContext s of None \<Rightarrow> s | Some running \<Rightarrow> s \<lparr> inputContext := Some False \<rparr>)
      in s1 \<lparr> isLive := False, statusText := js ''MIRRORING INACTIVE'', micActivity := 0 \<rparr>)"

definition resume_stop_AV :: "nat \<Rightarrow> 'a live_surface_scheme \<Rightarrow> 'a live_surface_scheme" where
  "resume_stop_AV k s = set_inactive_AV (after_await k s)"

definition stopLiveSession_AV :: "'a live_surface_scheme \<Rightarrow> 'a live_surface_scheme outcome" where
  "stopLiveSession_AV s =
     (let s0 = s \<lparr> statusText := js ''STOPPING...'' \<rparr>;
          s2 = release_processor s0;
          s3 = release_stream s2
      in case sessionPromiseRef s3 of
           None \<Rightarrow> Completed (set_inactive_AV s3)
         | Some k \<Rightarrow>
             (case promise (connections s3 k) of
                Pending q \<Rightarrow> Suspended (s3 \<lparr> stopsAwaiting := stopsAwaiting s3 @ [k] \<rparr>)
              | Fulfilled \<Rightarrow> Completed (resume_stop_AV k s3)
              | Rejected \<Rightarrow> Completed (resume_stop_AV k s3)))"

text \<open>
  \<^verbatim>\<open>startLiveSession\<close> of \<^verbatim>\<open>components/AssistantView.tsx\<close>, run to its end. The
  microphone API may be missing, the permission denied or granted. The function does not
  look at the refs it overwrites.
\<close>

datatype media = Unsupported | Denied jstring | Granted

definition startLiveSession :: "media \<Rightarrow> 'a live_surface_scheme \<Rightarrow> 'a live_surface_scheme" where
  "startLiveSession media s =
     (case media of
        Unsupported \<Rightarrow>
          s \<lparr> error := Some (js ''Microphone API not supported in this browser.''),
              isLive := False, statusText := js ''MIRRORING INACTIVE'' \<rparr>
      | Denied message \<Rightarrow>
          s \<lparr> error := Some (if message = [] then js ''Could not start voice session.''
                             else message),
              inputContext := Some True,
              isLive := False, statusText := js ''MIRRORING INACTIVE'' \<rparr>
      | Granted \<Rightarrow>
          s \<lparr> error := None, isLive := True, inputContext := Some True,
              streamRef := Some (acquired s),
              liveTracks := insert (acquired s) (liveTracks s),
              acquired := Suc (acquired s),
              statusText := js ''CONNECTING...'',
              connections := (connections s) (opened s := new_connection),
              opened := Suc (opened s),
              sessionPromiseRef := Some (opened s) \<rparr>)"

definition toggleLiveMode :: "media \<Rightarrow> 'a live_surface_scheme \<Rightarrow> 'a live_surface_scheme" where
  "toggleLiveMode media s =
     (if isLive s then state_of (stopLiveSession_AV s) else startLiveSession media s)"

text \<open>
  The callbacks of connection \<open>k\<close>. \<^verbatim>\<open>onopen\<close> makes the processor node of the session
  and stores it in the ref; the promise is fulfilled with the session, its reactions run,
  and then the calls of \<^verbatim>\<open>stopLiveSession\<close> that await it. \<^verbatim>\<open>onclose\<close> sets the view
  inactive and nothing else. \<^verbatim>\<open>onerror\<close> records the error and calls
  \<^verbatim>\<open>stopLiveSession\<close>.
\<close>

definition onopen :: "nat \<Rightarrow> 'a live_surface_scheme \<Rightarrow> 'a live_surface_scheme" where
  "onopen k s =
     s \<lparr> statusText := js ''ACTIVE'',
         scriptProcessorRef := Some (created s),
         connectedProcessors := insert (created s) (connectedProcessors s),
         created := Suc (created s) \<rparr>"

definition resume_stops :: "nat \<Rightarrow> 'a live_surface_scheme \<Rightarrow> 'a live_surface_scheme" where
  "resume_stops k s =
     fold (\<lambda>j st. resume_stop_AV j st) (filter (\<lambda>j. j = k) (stopsAwaiting s))
       (s \<lparr> stopsAwaiting := filter (\<lambda>j. j \<noteq> k) (stopsAwaiting s) \<rparr>)"

definition onclose :: "nat \<Rightarrow> 'a live_surface_scheme \<Rightarrow> 'a live_surface_scheme" where
  "onclose k s =
     s \<lparr> isLive := False, statusText := js ''MIRRORING INACTIVE'',
         closedByRemote := insert k (closedByRemote s) \<rparr>"

definition onerror :: "nat \<Rightarrow> 'a live_surface_scheme \<Rightarrow> 'a live_surface_scheme" where
  "onerror k s =
     state_of (stopLiveSession_AV
       (s \<lparr> error := Some (js ''Connection issue. Please check your mic permissions and network.'') \<rparr>))"

datatype surface_event =
  ToggleLiveMode media | ConnectionOpened nat | ConnectionClosed nat | ConnectionError nat
  | Unmount

fun surface_task :: "surface_event \<Rightarrow> 'a live_surface_scheme \<Rightarrow> 'a live_surface_scheme" where
  "surface_task (ToggleLiveMode media) s = drain (toggleLiveMode media s)"
| "surface_task (ConnectionOpened k) s =
     (if k < opened s then
        (case promise (connections s k) of
           Pending q \<Rightarrow>
             resume_stops k (drain ((onopen k s)
               \<lparr> connections := (connections s) (k := promise_fulfil (connections s k)) \<rparr>))
         | Fulfilled \<Rightarrow> s
         | Rejected \<Rightarrow> s)
      else s)"
| "surface_task (ConnectionClosed k) s = (if k < opened s then drain (onclose k s) else s)"
| "surface_task (ConnectionError k) s =
     (if k < opened s then
        drain (resume_stops k (onerror k
          (s \<lparr> connections := (connections s) (k := promise_reject (connections s k)) \<rparr>)))
      else s)"
| "surface_task Unmount s = drain (state_of (stopLiveSession_AV s))"

definition surface_run :: "surface_event list \<Rightarrow> 'a live_surface_scheme \<Rightarrow> 'a live_surface_scheme" where
  "surface_run evs s = fold surface_task evs s"

definition mounted :: live_surface where
  "mounted =
     \<lparr> streamRef = None, scriptProcessorRef = None, sessionPromiseRef = None,
       liveTracks = {}, acquired = 0, connectedProcessors = {}, created = 0,
       connections = (\<lambda>k. new_connection), opened = 0, closedByRemote = {},
       stopsAwaiting = [],
       isLive = False, statusText = js ''MIRRORING INACTIVE'', micActivity = 0,
       error = None, inputContext = None \<rparr>"

definition open_connections :: "'a surface_scheme \<Rightarrow> nat list" where
  "open_connections s =
     filter (\<lambda>k. promise (connections s k) \<noteq> Rejected
                 \<and> Close \<notin> set (calls (connections s k))
                 \<and> k \<notin> closedByRemote s)
       [0..<opened s]"

subsection \<open>The mini-companion of \<^verbatim>\<open>App.tsx\<close>\<close>

text \<open>
  The mini-companion keeps live captions only: an input transcription replaces the user
  caption, an output transcription is appended to the assistant caption,
  \<^verbatim>\<open>turnComplete\<close> clears both. Its handler never writes \<^verbatim>\<open>chatHistory\<close>.
\<close>

datatype view =
  DASHBOARD | NOTES_GENERATOR | QUIZ | HISTORY | PLANNER | POMODORO | AI_ASSISTANT

record app_voice = surface +
  isVoiceActive :: bool
  captionUser :: jstring
  captionAi :: jstring
  chatHistory :: "chat_message list"
  view :: view
  motivationRequests :: nat

definition text_or_empty :: "transcription \<Rightarrow> jstring" where
  "text_or_empty t = (case fragment t of None \<Rightarrow> [] | Some s \<Rightarrow> s)"

definition onmessage_captions :: "server_content option \<Rightarrow> 'a app_voice_scheme \<Rightarrow> 'a app_voice_scheme" where
  "onmessage_captions serverContent st =
     (case serverContent of
        None \<Rightarrow> st
      | Some sc \<Rightarrow>
          let st1 = (case inputTranscription sc of
                       None \<Rightarrow> st | Some t \<Rightarrow> st \<lparr> captionUser := text_or_empty t \<rparr>);
              st2 = (case outputTranscription sc of
                       None \<Rightarrow> st1
                     | Some t \<Rightarrow> st1 \<lparr> captionAi := captionAi st1 @ text_or_empty t \<rparr>);
              st3 = (if turnComplete sc then st2 \<lparr> captionUser := [], captionAi := [] \<rparr> else st2)
          in st3)"




subsection \<open>The steps of a teardown, read off a state\<close>







section \<open>Tool calls\<close>













section \<open>States used in the examples\<close>




definition initial_voice :: app_voice where
  "initial_voice =
     \<lparr> streamRef = None, scriptProcessorRef = None, sessionPromiseRef = None,
       liveTracks = {}, acquired = 0, connectedProcessors = {}, created = 0,
       connections = (\<lambda>k. new_connection), opened = 0,
       closedByRemote = {}, stopsAwaiting = [],
       isVoiceActive = False, captionUser = [], captionAi = [], chatHistory = [],
       view = DASHBOARD, motivationRequests = 0 \<rparr>"






section \<open>Properties: numbers\<close>

lemma round_half_even_int: "round_half_even (of_int k) = k"
  by (simp add: round_half_even_def)

lemma round_half_even_bounds: "\<lfloor>y\<rfloor> \<le> round_half_even y \<and> round_half_even y \<le> \<lfloor>y\<rfloor> + 1"
  by (simp add: round_half_even_def Let_def)

lemma round_half_even_error: "\<bar>of_int (round_half_even y) - y\<bar> \<le> 1 / 2"
proof -
  have "of_int \<lfloor>y\<rfloor> \<le> y" "y < of_int \<lfloor>y\<rfloor> + 1" by linarith+
  then show ?thesis
    by (auto simp add: round_half_even_def Let_def)
qed

lemma round_half_even_mono:
  assumes "x \<le> y"
  shows "round_half_even x \<le> round_half_even y"
proof (cases "\<lfloor>x\<rfloor> = \<lfloor>y\<rfloor>")
  case True
  with assms show ?thesis
    by (auto simp add: round_half_even_def Let_def)
next
  case False
  from assms have "\<lfloor>x\<rfloor> \<le> \<lfloor>y\<rfloor>" by (rule floor_mono)
  with False have "\<lfloor>x\<rfloor> + 1 \<le> \<lfloor>y\<rfloor>" by simp
  moreover have "round_half_even x \<le> \<lfloor>x\<rfloor> + 1" "\<lfloor>y\<rfloor> \<le> round_half_even y"
    using round_half_even_bounds by blast+
  ultimately show ?thesis by linarith
qed

lemma ulp_pos: "0 < ulp x"
  by (simp add: ulp_def)

lemma binade_upper:
  assumes "0 < x"
  shows "x < 2 powr (of_int (binade x) + 1)"
proof -
  have "log 2 x < of_int \<lfloor>log 2 x\<rfloor> + 1" by linarith
  also have "\<dots> \<le> of_int (binade x) + 1"
    using assms by (simp add: binade_def)
  finally have "log 2 x < of_int (binade x) + 1" .
  then have "2 powr (log 2 x) < 2 powr (of_int (binade x) + 1)" by simp
  then show ?thesis using assms by simp
qed

lemma binade_lower:
  assumes "0 < x" and "- 1022 < binade x"
  shows "2 powr (of_int (binade x)) \<le> x"
proof -
  from assms have "binade x = \<lfloor>log 2 x\<rfloor>" by (simp add: binade_def max_def split: if_splits)
  then have "of_int (binade x) \<le> log 2 x" by simp
  then have "2 powr (of_int (binade x)) \<le> 2 powr (log 2 x)" by simp
  then show ?thesis using assms by simp
qed

lemma binade_mono:
  assumes "0 < x" and "x \<le> y"
  shows "binade x \<le> binade y"
proof -
  from assms have "log 2 x \<le> log 2 y" by simp
  then have "\<lfloor>log 2 x\<rfloor> \<le> \<lfloor>log 2 y\<rfloor>" by (rule floor_mono)
  then show ?thesis using assms by (simp add: binade_def)
qed

lemma binade_eq:
  assumes "0 < x" and "x < 2 powr (of_int e + 1)" and "e = - 1022 \<or> 2 powr (of_int e) \<le> x"
    and "- 1022 \<le> e"
  shows "binade x = e"
proof -
  from assms(1,2) have "2 powr (log 2 x) < 2 powr (of_int e + 1)" by simp
  then have "log 2 x < of_int e + 1" by simp
  then have u: "\<lfloor>log 2 x\<rfloor> \<le> e" by linarith
  show ?thesis
  proof (cases "e = - 1022")
    case True
    with u show ?thesis using assms(1) by (simp add: binade_def)
  next
    case False
    with assms(3) have "2 powr (of_int e) \<le> 2 powr (log 2 x)" using assms(1) by simp
    then have "of_int e \<le> log 2 x" by simp
    then have "e \<le> \<lfloor>log 2 x\<rfloor>" by linarith
    with u assms(4) show ?thesis using assms(1) by (simp add: binade_def)
  qed
qed

lemma powr_scaled:
  "(2 :: real) powr (of_int e + a) / 2 powr (of_int e - 52) = 2 powr (a + 52)"
proof -
  have "(2 :: real) powr (of_int e + a) / 2 powr (of_int e - 52)
          = 2 powr ((of_int e + a) - (of_int e - 52))"
    by (simp only: powr_diff)
  then show ?thesis by (simp add: algebra_simps)
qed

lemma scaled_upper:
  assumes "0 < x"
  shows "x / ulp x < 2 ^ 53"
proof -
  have "x / ulp x < 2 powr (of_int (binade x) + 1) / ulp x"
    using binade_upper [OF assms] ulp_pos [of x] by (simp add: divide_strict_right_mono)
  also have "\<dots> = 2 powr (1 + 52)"
    unfolding ulp_def by (rule powr_scaled)
  also have "\<dots> = 2 ^ 53"
  proof -
    have "(2 :: real) powr (real 53) = 2 ^ 53" by (rule powr_realpow) simp
    then show ?thesis by simp
  qed
  finally show ?thesis .
qed

lemma scaled_lower:
  assumes "0 < x" and "- 1022 < binade x"
  shows "2 ^ 52 \<le> x / ulp x"
proof -
  have "(2 :: real) powr (real 52) = 2 ^ 52" by (rule powr_realpow) simp
  then have "2 ^ 52 = (2 :: real) powr (0 + 52)" by simp
  also have "\<dots> = 2 powr (of_int (binade x) + 0) / ulp x"
    unfolding ulp_def by (rule powr_scaled [symmetric])
  also have "\<dots> \<le> x / ulp x"
    using binade_lower [OF assms] ulp_pos [of x] by (simp add: divide_right_mono)
  finally show ?thesis .
qed

lemma roundTiesToEven_nonneg:
  assumes "0 \<le> x"
  shows "0 \<le> roundTiesToEven x"
proof -
  have "0 \<le> x / ulp x" using assms ulp_pos [of x] by simp
  then have "round_half_even 0 \<le> round_half_even (x / ulp x)" by (rule round_half_even_mono)
  then have "0 \<le> round_half_even (x / ulp x)"
    using round_half_even_int [of 0] by simp
  then show ?thesis using ulp_pos [of x] by (simp add: roundTiesToEven_def)
qed

lemma roundTiesToEven_upper:
  assumes "0 < x"
  shows "roundTiesToEven x \<le> 2 powr (of_int (binade x) + 1)"
proof -
  have "x / ulp x \<le> of_int (2 ^ 53)" using scaled_upper [OF assms] by simp
  then have "round_half_even (x / ulp x) \<le> round_half_even (of_int (2 ^ 53))"
    by (rule round_half_even_mono)
  then have "round_half_even (x / ulp x) \<le> 2 ^ 53"
    by (simp only: round_half_even_int)
  then have "(of_int (round_half_even (x / ulp x)) :: real) \<le> of_int (2 ^ 53)"
    by (simp only: of_int_le_iff)
  then have "of_int (round_half_even (x / ulp x)) * ulp x \<le> 2 ^ 53 * ulp x"
    using ulp_pos [of x] by simp
  also have "\<dots> = 2 powr (of_int (binade x) + 1)"
  proof -
    have "(2 :: real) powr (real 53) = 2 ^ 53" by (rule powr_realpow) simp
    then have "2 ^ 53 * ulp x = 2 powr 53 * 2 powr (of_int (binade x) - 52)"
      by (simp add: ulp_def)
    also have "\<dots> = 2 powr (53 + (of_int (binade x) - 52))" by (simp only: powr_add)
    finally show ?thesis by (simp add: algebra_simps)
  qed
  finally show ?thesis using assms by (simp add: roundTiesToEven_def)
qed

lemma roundTiesToEven_lower:
  assumes "0 < x" and "- 1022 < binade x"
  shows "2 powr (of_int (binade x)) \<le> roundTiesToEven x"
proof -
  have "of_int (2 ^ 52) \<le> x / ulp x" using scaled_lower [OF assms] by simp
  then have "round_half_even (of_int (2 ^ 52)) \<le> round_half_even (x / ulp x)"
    by (rule round_half_even_mono)
  then have "2 ^ 52 \<le> round_half_even (x / ulp x)"
    by (simp only: round_half_even_int)
  then have "(of_int (2 ^ 52) :: real) \<le> of_int (round_half_even (x / ulp x))"
    by (simp only: of_int_le_iff)
  then have "2 ^ 52 * ulp x \<le> of_int (round_half_even (x / ulp x)) * ulp x"
    using ulp_pos [of x] by simp
  moreover have "2 ^ 52 * ulp x = 2 powr (of_int (binade x))"
  proof -
    have "(2 :: real) powr (real 52) = 2 ^ 52" by (rule powr_realpow) simp
    then have "2 ^ 52 * ulp x = 2 powr 52 * 2 powr (of_int (binade x) - 52)"
      by (simp add: ulp_def)
    also have "\<dots> = 2 powr (52 + (of_int (binade x) - 52))" by (simp only: powr_add)
    finally show ?thesis by (simp add: algebra_simps)
  qed
  ultimately show ?thesis using assms by (simp add: roundTiesToEven_def)
qed

lemma roundTiesToEven_mono:
  assumes "0 \<le> x" and "x \<le> y"
  shows "roundTiesToEven x \<le> roundTiesToEven y"
proof (cases "x = 0")
  case True
  from assms have "0 \<le> y" by simp
  then have "0 \<le> roundTiesToEven y" by (rule roundTiesToEven_nonneg)
  with True show ?thesis by (simp add: roundTiesToEven_def)
next
  case False
  with assms have x: "0 < x" and y: "0 < y" by simp_all
  have b: "binade x \<le> binade y" using x assms(2) by (rule binade_mono)
  show ?thesis
  proof (cases "binade x = binade y")
    case True
    then have u: "ulp x = ulp y" by (simp add: ulp_def)
    have "x / ulp y \<le> y / ulp y" using assms(2) ulp_pos [of y] by (simp add: divide_right_mono)
    then have "round_half_even (x / ulp y) \<le> round_half_even (y / ulp y)"
      by (rule round_half_even_mono)
    then have "(of_int (round_half_even (x / ulp y)) :: real) \<le> of_int (round_half_even (y / ulp y))"
      by (simp only: of_int_le_iff)
    then have "of_int (round_half_even (x / ulp y)) * ulp y
                 \<le> of_int (round_half_even (y / ulp y)) * ulp y"
      using ulp_pos [of y] by simp
    then show ?thesis using x y u by (simp add: roundTiesToEven_def)
  next
    case False
    with b have l: "binade x + 1 \<le> binade y" by simp
    moreover have "- 1022 \<le> binade x" by (simp add: binade_def)
    ultimately have n: "- 1022 < binade y" by linarith
    have "roundTiesToEven x \<le> 2 powr (of_int (binade x) + 1)"
      using x by (rule roundTiesToEven_upper)
    also have "\<dots> \<le> 2 powr (of_int (binade y))"
    proof -
      from l have "(of_int (binade x) + 1 :: real) \<le> of_int (binade y)" by linarith
      then show ?thesis by simp
    qed
    also have "\<dots> \<le> roundTiesToEven y" using y n by (rule roundTiesToEven_lower)
    finally show ?thesis .
  qed
qed

lemma roundTiesToEven_error: "\<bar>roundTiesToEven x - x\<bar> \<le> ulp x / 2"
proof (cases "x = 0")
  case True
  then show ?thesis using ulp_pos [of x] by (simp add: roundTiesToEven_def)
next
  case False
  have "\<bar>of_int (round_half_even (x / ulp x)) - x / ulp x\<bar> \<le> 1 / 2"
    by (rule round_half_even_error)
  then have "\<bar>of_int (round_half_even (x / ulp x)) - x / ulp x\<bar> * ulp x \<le> 1 / 2 * ulp x"
    using ulp_pos [of x] by (simp only: mult_le_cancel_right) simp
  moreover have "\<bar>of_int (round_half_even (x / ulp x)) - x / ulp x\<bar> * ulp x
                  = \<bar>of_int (round_half_even (x / ulp x)) * ulp x - x\<bar>"
  proof -
    have "\<bar>of_int (round_half_even (x / ulp x)) - x / ulp x\<bar> * ulp x
            = \<bar>(of_int (round_half_even (x / ulp x)) - x / ulp x) * ulp x\<bar>"
      using ulp_pos [of x] by (simp add: abs_mult)
    also have "(of_int (round_half_even (x / ulp x)) - x / ulp x) * ulp x
                 = of_int (round_half_even (x / ulp x)) * ulp x - x"
      using ulp_pos [of x] by (simp add: algebra_simps)
    finally show ?thesis .
  qed
  ultimately show ?thesis using False by (simp add: roundTiesToEven_def)
qed


lemma binade_ge: "- 1022 \<le> binade x"
  by (simp add: binade_def)

lemma scaled_power:
  "(2 :: real) ^ n * 2 powr (of_int e - 52) = 2 powr (of_int e + (real n - 52))"
proof -
  have "(2 :: real) powr (real n) = 2 ^ n" by (rule powr_realpow) simp
  then have "(2 :: real) ^ n * 2 powr (of_int e - 52) = 2 powr (real n) * 2 powr (of_int e - 52)"
    by simp
  also have "\<dots> = 2 powr (real n + (of_int e - 52))" by (simp only: powr_add)
  finally show ?thesis by (simp add: algebra_simps)
qed

lemma double_scaled:
  assumes "0 < k" and "k \<le> 2 ^ 53" and "- 1022 \<le> e" and "e = - 1022 \<or> 2 ^ 52 \<le> k"
  shows "roundTiesToEven (of_int k * 2 powr (of_int e - 52)) = of_int k * 2 powr (of_int e - 52)"
proof -
  let ?u = "(2 :: real) powr (of_int e - 52)"
  let ?v = "of_int k * ?u"
  have u: "0 < ?u" by simp
  have v: "0 < ?v" using assms(1) by simp
  show ?thesis
  proof (cases "k = 2 ^ 53")
    case True
    then have e: "?v = 2 powr (of_int (e + 1))"
      using scaled_power [of 53 e] by simp
    have "binade ?v = e + 1"
    proof (rule binade_eq)
      show "0 < ?v" by (rule v)
      show "?v < 2 powr (of_int (e + 1) + 1)" unfolding e by simp
      show "e + 1 = - 1022 \<or> 2 powr (of_int (e + 1)) \<le> ?v" unfolding e by simp
      show "- 1022 \<le> e + 1" using assms(3) by simp
    qed
    then have "ulp ?v = 2 powr (of_int (e + 1) - 52)" by (simp add: ulp_def)
    moreover have "(2 :: real) ^ 52 * 2 powr (of_int (e + 1) - 52) = 2 powr (of_int (e + 1))"
      using scaled_power [of 52 "e + 1"] by simp
    ultimately have "of_int (2 ^ 52) * ulp ?v = ?v" using e by simp
    moreover define w where "w = ulp ?v"
    ultimately have s: "of_int (2 ^ 52) * w = ?v" by simp
    have w: "0 < w" unfolding w_def by (rule ulp_pos)
    then have "of_int (2 ^ 52) * w / w = (of_int (2 ^ 52) :: real)" by simp
    then have "?v / w = of_int (2 ^ 52)" by (simp only: s)
    then have "round_half_even (?v / w) = 2 ^ 52"
      by (simp only: round_half_even_int)
    then have "of_int (round_half_even (?v / w)) * w = of_int (2 ^ 52) * w" by simp
    then have "of_int (round_half_even (?v / w)) * w = ?v" by (simp only: s)
    then have "of_int (round_half_even (?v / ulp ?v)) * ulp ?v = ?v" by (simp only: w_def)
    moreover have "?v \<noteq> 0" using v by (rule less_imp_neq [symmetric])
    ultimately show ?thesis by (simp only: roundTiesToEven_def if_False)
  next
    case False
    with assms(2) have "k < 2 ^ 53" by simp
    then have "(of_int k :: real) < of_int (2 ^ 53)" by (simp only: of_int_less_iff)
    then have a: "?v < 2 ^ 53 * ?u" using u by simp
    have b: "2 ^ 53 * ?u = 2 powr (of_int e + 1)" using scaled_power [of 53 e] by simp
    have upper: "?v < 2 powr (of_int e + 1)" using a unfolding b .
    have lower: "e = - 1022 \<or> 2 powr (of_int e) \<le> ?v"
    proof (cases "e = - 1022")
      case True
      then show ?thesis by blast
    next
      case False
      with assms(4) have "2 ^ 52 \<le> k" by blast
      then have "(of_int (2 ^ 52) :: real) \<le> of_int k" by (simp only: of_int_le_iff)
      then have a: "2 ^ 52 * ?u \<le> ?v" using u by simp
      have b: "2 ^ 52 * ?u = 2 powr (of_int e)" using scaled_power [of 52 e] by simp
      have "2 powr (of_int e) \<le> ?v" using a unfolding b .
      then show ?thesis by blast
    qed
    have "binade ?v = e" using v upper lower assms(3) by (rule binade_eq)
    then have "ulp ?v = ?u" by (simp add: ulp_def)
    then have "?v / ulp ?v = of_int k" by simp
    then have "round_half_even (?v / ulp ?v) = k" by (simp only: round_half_even_int)
    then show ?thesis using v \<open>ulp ?v = ?u\<close> by (simp add: roundTiesToEven_def)
  qed
qed

lemma roundTiesToEven_idem:
  assumes "0 \<le> x"
  shows "roundTiesToEven (roundTiesToEven x) = roundTiesToEven x"
proof (cases "round_half_even (x / ulp x) = 0 \<or> x = 0")
  case True
  then have "roundTiesToEven x = 0" by (auto simp add: roundTiesToEven_def)
  then show ?thesis by (simp add: roundTiesToEven_def)
next
  case False
  with assms have x: "0 < x" by simp
  let ?k = "round_half_even (x / ulp x)"
  have f: "roundTiesToEven x = of_int ?k * 2 powr (of_int (binade x) - 52)"
    using x by (simp add: roundTiesToEven_def ulp_def)
  have "0 \<le> x / ulp x" using x ulp_pos [of x] by simp
  then have "round_half_even 0 \<le> ?k" by (rule round_half_even_mono)
  then have "0 \<le> ?k" using round_half_even_int [of 0] by simp
  with False have 1: "0 < ?k" by simp
  have "x / ulp x \<le> of_int (2 ^ 53)" using scaled_upper [OF x] by simp
  then have "?k \<le> round_half_even (of_int (2 ^ 53))" by (rule round_half_even_mono)
  then have 2: "?k \<le> 2 ^ 53" by (simp only: round_half_even_int)
  have 3: "- 1022 \<le> binade x" by (rule binade_ge)
  have 4: "binade x = - 1022 \<or> 2 ^ 52 \<le> ?k"
  proof (cases "binade x = - 1022")
    case True
    then show ?thesis by blast
  next
    case False
    with 3 have n: "- 1022 < binade x" by simp
    have "of_int (2 ^ 52) \<le> x / ulp x" using scaled_lower [OF x n] by simp
    then have "round_half_even (of_int (2 ^ 52)) \<le> ?k" by (rule round_half_even_mono)
    then have "2 ^ 52 \<le> ?k" by (simp only: round_half_even_int)
    then show ?thesis by blast
  qed
  show ?thesis
    unfolding f using 1 2 3 4 by (rule double_scaled)
qed

lemma roundTiesToEven_eval:
  assumes "0 < x" and "x < 2 powr (of_int e + 1)" and "e = - 1022 \<or> 2 powr (of_int e) \<le> x"
    and "- 1022 \<le> e"
  shows "roundTiesToEven x
           = of_int (round_half_even (x / 2 powr (of_int e - 52))) * 2 powr (of_int e - 52)"
proof -
  have "binade x = e" using assms by (rule binade_eq)
  then show ?thesis using assms(1) by (simp add: roundTiesToEven_def ulp_def)
qed

lemma ties_to_even:
  "roundTiesToEven (1 + 1 / 2 ^ 53) = 1
   \<and> roundTiesToEven (1 + 3 / 2 ^ 53) = 1 + 1 / 2 ^ 51
   \<and> roundTiesToEven (- (1 + 3 / 2 ^ 53)) = - (1 + 1 / 2 ^ 51)
   \<and> roundTiesToEven (3 / 2 ^ 1075) = 1 / 2 ^ 1073
   \<and> roundTiesToEven (1 / 2 ^ 1075) = 0
   \<and> roundTiesToEven (1 / 10) = 3602879701896397 / 2 ^ 55"
proof -
  have p: "(2 :: real) powr 1 = 2" "(2 :: real) powr (- 52) = 1 / 2 ^ 52"
    "(2 :: real) powr (- 1021) = 1 / 2 ^ 1021" "(2 :: real) powr (- 1074) = 1 / 2 ^ 1074"
    "(2 :: real) powr (- 4) = 1 / 2 ^ 4" "(2 :: real) powr (- 3) = 1 / 2 ^ 3"
    "(2 :: real) powr (- 56) = 1 / 2 ^ 56"
    by (simp_all add: powr_minus_divide)
  have 1: "roundTiesToEven (1 + 1 / 2 ^ 53)
          = of_int (round_half_even ((1 + 1 / 2 ^ 53) / 2 powr (of_int 0 - 52)))
              * 2 powr (of_int 0 - 52)"
    by (rule roundTiesToEven_eval) (simp_all add: p)
  have 2: "roundTiesToEven (1 + 3 / 2 ^ 53)
          = of_int (round_half_even ((1 + 3 / 2 ^ 53) / 2 powr (of_int 0 - 52)))
              * 2 powr (of_int 0 - 52)"
    by (rule roundTiesToEven_eval) (simp_all add: p)
  have 4: "roundTiesToEven (3 / 2 ^ 1075)
          = of_int (round_half_even ((3 / 2 ^ 1075) / 2 powr (of_int (- 1022) - 52)))
              * 2 powr (of_int (- 1022) - 52)"
    by (rule roundTiesToEven_eval) (simp_all add: p)
  have 5: "roundTiesToEven (1 / 2 ^ 1075)
          = of_int (round_half_even ((1 / 2 ^ 1075) / 2 powr (of_int (- 1022) - 52)))
              * 2 powr (of_int (- 1022) - 52)"
    by (rule roundTiesToEven_eval) (simp_all add: p)
  have 6: "roundTiesToEven (1 / 10)
          = of_int (round_half_even ((1 / 10) / 2 powr (of_int (- 4) - 52)))
              * 2 powr (of_int (- 4) - 52)"
    by (rule roundTiesToEven_eval) (simp_all add: p)
  have a: "roundTiesToEven (1 + 1 / 2 ^ 53) = 1"
    unfolding 1 by (simp add: p round_half_even_def Let_def)
  have b: "roundTiesToEven (1 + 3 / 2 ^ 53) = 1 + 1 / 2 ^ 51"
    unfolding 2 by (simp add: p round_half_even_def Let_def)
  have c: "roundTiesToEven (- (1 + 3 / 2 ^ 53)) = - (1 + 1 / 2 ^ 51)"
  proof -
    have "binade (- (1 + 3 / 2 ^ 53)) = binade (1 + 3 / 2 ^ 53)" by (simp add: binade_def)
    moreover have "binade (1 + 3 / 2 ^ 53) = 0"
      by (rule binade_eq) (simp_all add: p)
    ultimately have u: "ulp (- (1 + 3 / 2 ^ 53)) = 1 / 2 ^ 52" by (simp add: ulp_def p)
    show ?thesis
      unfolding roundTiesToEven_def u by (simp add: round_half_even_def Let_def)
  qed
  have d: "roundTiesToEven (3 / 2 ^ 1075) = 1 / 2 ^ 1073"
    unfolding 4 by (simp add: p round_half_even_def Let_def)
  have e: "roundTiesToEven (1 / 2 ^ 1075) = 0"
    unfolding 5 by (simp add: p round_half_even_def Let_def)
  have f: "roundTiesToEven (1 / 10) = 3602879701896397 / 2 ^ 55"
    unfolding 6 by (simp add: p round_half_even_def Let_def)
  from a b c d e f show ?thesis by blast
qed

lemma double_0: "double 0"
  by (simp add: double_def roundTiesToEven_def)

lemma double_max: "double x \<Longrightarrow> double y \<Longrightarrow> double (max x y)"
  by (simp add: max_def)

lemma double_quarter: "double (1 / 4)"
proof -
  have "roundTiesToEven (of_int (2 ^ 52) * 2 powr (of_int (- 2) - 52))
          = of_int (2 ^ 52) * 2 powr (of_int (- 2) - 52)"
    by (rule double_scaled) simp_all
  moreover have "of_int (2 ^ 52) * 2 powr (of_int (- 2) - 52) = (1 / 4 :: real)"
    by (simp add: powr_minus_divide)
  ultimately have "roundTiesToEven (1 / 4) = 1 / 4" by (simp only:)
  then show ?thesis by (simp only: double_def)
qed

lemma duration_two_frames: "roundTiesToEven (1 / 12000) = 6148914691236517 / 2 ^ 66"
proof -
  have p: "(2 :: real) powr (- 13) = 1 / 2 ^ 13" "(2 :: real) powr (- 14) = 1 / 2 ^ 14"
    "(2 :: real) powr (- 66) = 1 / 2 ^ 66"
    by (simp_all add: powr_minus_divide)
  have "roundTiesToEven (1 / 12000)
          = of_int (round_half_even ((1 / 12000) / 2 powr (of_int (- 14) - 52)))
              * 2 powr (of_int (- 14) - 52)"
    by (rule roundTiesToEven_eval) (simp_all add: p)
  also have "\<dots> = 6148914691236517 / 2 ^ 66"
    by (simp add: p round_half_even_def Let_def)
  finally show ?thesis .
qed

lemma end_of_first_chunk:
  "roundTiesToEven (1 / 4 + 6148914691236517 / 2 ^ 66) = 2252550413623143 / 2 ^ 53"
proof -
  have p: "(2 :: real) powr (- 1) = 1 / 2" "(2 :: real) powr (- 2) = 1 / 2 ^ 2"
    "(2 :: real) powr (- 54) = 1 / 2 ^ 54"
    by (simp_all add: powr_minus_divide)
  have "roundTiesToEven (1 / 4 + 6148914691236517 / 2 ^ 66)
          = of_int (round_half_even ((1 / 4 + 6148914691236517 / 2 ^ 66) / 2 powr (of_int (- 2) - 52)))
              * 2 powr (of_int (- 2) - 52)"
    by (rule roundTiesToEven_eval) (simp_all add: p)
  also have "\<dots> = 2252550413623143 / 2 ^ 53"
    by (simp add: p round_half_even_def Let_def)
  finally show ?thesis .
qed

section \<open>Properties: PCM frame codec and base64\<close>

lemma unat_code_unit: "k < 65536 \<Longrightarrow> unat (of_nat k :: code_unit) = k"
  by (simp add: unsigned_of_nat take_bit_nat_eq_self)

lemma b64_index_char: "v < 64 \<Longrightarrow> b64_index (b64_char v) = Some v"
proof -
  assume v: "v < 64"
  consider (upper) "v < 26" | (lower) "26 \<le> v" "v < 52" | (digit) "52 \<le> v" "v < 62"
    | (plus) "v = 62" | (slash) "v = 63"
    using v by linarith
  then show ?thesis
  proof cases
    case upper
    then have "unat (b64_char v) = 65 + v"
      by (simp add: b64_char_def unat_code_unit del: of_nat_add)
    with upper show ?thesis by (auto simp add: b64_index_def Let_def)
  next
    case lower
    then have "unat (b64_char v) = 97 + (v - 26)"
      by (simp add: b64_char_def unat_code_unit del: of_nat_add)
    with lower show ?thesis by (auto simp add: b64_index_def Let_def)
  next
    case digit
    then have "unat (b64_char v) = v - 4"
      by (simp add: b64_char_def unat_code_unit del: of_nat_add of_nat_diff)
    with digit show ?thesis by (auto simp add: b64_index_def Let_def)
  next
    case plus
    then show ?thesis by (simp add: b64_index_def b64_char_def)
  next
    case slash
    then show ?thesis by (simp add: b64_index_def b64_char_def)
  qed
qed

lemma b64_char_not_pad: "v < 64 \<Longrightarrow> b64_char v \<noteq> 61"
proof
  assume "v < 64" and "b64_char v = 61"
  then have "b64_index 61 = Some v" using b64_index_char [of v] by simp
  then show False by (simp add: b64_index_def)
qed

lemma b64_char_not_ws: "v < 64 \<Longrightarrow> \<not> ascii_whitespace (b64_char v)"
proof
  assume v: "v < 64" and "ascii_whitespace (b64_char v)"
  then consider "b64_char v = 9" | "b64_char v = 10" | "b64_char v = 12"
    | "b64_char v = 13" | "b64_char v = 32"
    by (auto simp add: ascii_whitespace_def)
  then show False
  proof cases
    case 1 with b64_index_char [OF v] show False by (simp add: b64_index_def)
  next
    case 2 with b64_index_char [OF v] show False by (simp add: b64_index_def)
  next
    case 3 with b64_index_char [OF v] show False by (simp add: b64_index_def)
  next
    case 4 with b64_index_char [OF v] show False by (simp add: b64_index_def)
  next
    case 5 with b64_index_char [OF v] show False by (simp add: b64_index_def)
  qed
qed

lemma unat_byte_less: "unat (b :: byte) < 256"
  using unsigned_less [of b, where ?'a = nat] by simp

lemma bytes_sextets_bound: "\<forall>v \<in> set (bytes_sextets bs). v < 64"
proof (induction bs rule: bytes_sextets.induct)
  case 1
  then show ?case by simp
next
  case (2 a)
  have "unat a < 256" by (rule unat_byte_less)
  then show ?case by auto
next
  case (3 a b)
  have "unat a < 256" "unat b < 256" by (rule unat_byte_less)+
  then show ?case by auto
next
  case (4 a b c bs)
  have "unat a < 256" "unat b < 256" "unat c < 256" by (rule unat_byte_less)+
  with 4 show ?case by auto
qed

lemma sextets_bytes_inverse: "sextets_bytes (bytes_sextets bs) = bs"
proof (induction bs rule: bytes_sextets.induct)
  case 1
  then show ?case by simp
next
  case (2 a)
  have "unat a < 256" by (rule unat_byte_less)
  then show ?case by simp
next
  case (3 a b)
  have "unat a < 256" "unat b < 256" by (rule unat_byte_less)+
  then show ?case by simp
next
  case (4 a b c bs)
  have "unat a < 256" "unat b < 256" "unat c < 256" by (rule unat_byte_less)+
  with 4 show ?case by simp
qed

lemma bytes_sextets_length: "length (bytes_sextets bs) mod 4 \<noteq> 1"
  by (induction bs rule: bytes_sextets.induct) simp_all

lemma those_map_b64:
  "\<forall>v \<in> set vs. v < 64 \<Longrightarrow> those (map (b64_index \<circ> b64_char) vs) = Some vs"
  by (induction vs) (simp_all add: b64_index_char)

lemma filter_ws_body:
  "\<forall>v \<in> set vs. v < 64 \<Longrightarrow>
     filter (\<lambda>c. \<not> ascii_whitespace c) (map b64_char vs) = map b64_char vs"
  by (induction vs) (simp_all add: b64_char_not_ws)

lemma last_body_not_pad:
  assumes "\<forall>v \<in> set vs. v < 64" and "vs \<noteq> []"
  shows "last (map b64_char vs) \<noteq> 61"
  using assms by (simp add: last_map b64_char_not_pad)

lemma strip_padding_body:
  assumes "\<forall>v \<in> set vs. v < 64" and "length vs mod 4 \<noteq> 1"
  shows "strip_padding (map b64_char vs @ replicate ((4 - length vs mod 4) mod 4) 61)
           = map b64_char vs"
proof -
  let ?body = "map b64_char vs"
  consider (zero) "length vs mod 4 = 0" | (two) "length vs mod 4 = 2"
    | (three) "length vs mod 4 = 3"
    using assms(2) by linarith
  then show ?thesis
  proof cases
    case zero
    then show ?thesis
      using last_body_not_pad [OF assms(1)] by (auto simp add: strip_padding_def)
  next
    case two
    then have ne: "vs \<noteq> []" by auto
    have "replicate ((4 - length vs mod 4) mod 4) (61 :: code_unit) = [61, 61]"
      using two by (simp add: numeral_2_eq_2)
    moreover have "length (?body @ [61, 61]) mod 4 = 0"
      using two by (simp add: mod_Suc)
    ultimately show ?thesis
      using last_body_not_pad [OF assms(1) ne] ne
      by (simp add: strip_padding_def butlast_append)
  next
    case three
    then have ne: "vs \<noteq> []" by auto
    have "replicate ((4 - length vs mod 4) mod 4) (61 :: code_unit) = [61]"
      using three by simp
    moreover have "length (?body @ [61]) mod 4 = 0"
      using three by (simp add: mod_Suc)
    ultimately show ?thesis
      using last_body_not_pad [OF assms(1) ne] ne
      by (simp add: strip_padding_def butlast_append)
  qed
qed

lemma atob_btoa: "atob (btoa bs) = Inr bs"
proof -
  let ?vs = "bytes_sextets bs"
  have b: "\<forall>v \<in> set ?vs. v < 64" by (rule bytes_sextets_bound)
  have l: "length ?vs mod 4 \<noteq> 1" by (rule bytes_sextets_length)
  have f: "filter (\<lambda>c. \<not> ascii_whitespace c) (btoa bs) = btoa bs"
    using filter_ws_body [OF b] by (simp add: btoa_def Let_def ascii_whitespace_def)
  have s: "strip_padding (btoa bs) = map b64_char ?vs"
    using strip_padding_body [OF b l] by (simp add: btoa_def Let_def)
  show ?thesis
    using l by (simp add: atob_def f s those_map_b64 [OF b] sextets_bytes_inverse)
qed

lemma decode_encode: "decode (encode bytes) = Inr bytes"
  by (simp add: decode_def encode_def atob_btoa)

lemma bytes_int16_inverse: "bytes_int16 (ucast w) (ucast (drop_bit 8 w)) = w"
  unfolding bytes_int16_def
  by (rule bit_word_eqI) (auto simp add: bit_simps)

lemma int16_view_bytes: "int16_view (concat (map int16_bytes ws)) = ws"
  by (induction ws) (simp_all add: int16_bytes_def bytes_int16_inverse)

lemma length_int16_bytes: "length (concat (map int16_bytes ws)) = 2 * length ws"
  by (induction ws) (simp_all add: int16_bytes_def)

lemma decodeAudioData_mono:
  assumes "ws \<noteq> []"
  shows "decodeAudioData (concat (map int16_bytes ws)) 24000 1 =
           Inr \<lparr> sampleRate = 24000,
                 channelData = [map (\<lambda>w. real_of_int (sint w) / 32768) ws] \<rparr>"
proof -
  have "map (\<lambda>i. real_of_int (sint (ws ! i)) / 32768) [0..<length ws]
          = map (\<lambda>w. real_of_int (sint w) / 32768) ws"
    by (rule nth_equalityI) simp_all
  then show ?thesis
    using assms
    by (simp add: decodeAudioData_def length_int16_bytes int16_view_bytes createBuffer_def)
qed

lemma length_int16_view: "length (int16_view bs) = length bs div 2"
  by (induction bs rule: int16_view.induct) simp_all

lemma decodeAudioData_live_even:
  "even (length bytes) \<Longrightarrow> decodeAudioData_live bytes rate numChannels
     = decodeAudioData bytes rate numChannels"
  by (simp add: decodeAudioData_live_def decodeAudioData_def length_int16_view)

lemma decodeFrame_live_createBlob:
  "decodeFrame_live (data (createBlob S)) = decodeFrame (data (createBlob S))"
  by (simp add: decodeFrame_live_def decodeFrame_def createBlob_def decode_encode
      decodeAudioData_live_even length_int16_bytes)

lemma decodeFrame_createBlob:
  assumes "S \<noteq> []"
  shows "decodeFrame (data (createBlob S)) =
           Inr \<lparr> sampleRate = 24000,
                 channelData = [map (\<lambda>x. real_of_int (sint (ToInt16 (x * 32768))) / 32768) S] \<rparr>"
  using assms decodeAudioData_mono [of "float_to_int16 S"]
  by (simp add: decodeFrame_def createBlob_def decode_encode float_to_int16_def comp_def)

lemma sint_ToInt16:
  assumes "- 32768 \<le> js_trunc y" and "js_trunc y < 32768"
  shows "sint (ToInt16 y) = js_trunc y"
proof -
  have "signed_take_bit 15 (js_trunc y) = js_trunc y"
    using assms by (intro signed_take_bit_int_eq_self) simp_all
  then show ?thesis
    by (simp add: ToInt16_def sint_sbintrunc')
qed

lemma js_trunc_range:
  assumes "- 1 \<le> x" and "x < 1"
  shows "- 32768 \<le> js_trunc (x * 32768) \<and> js_trunc (x * 32768) < 32768"
proof (cases "0 \<le> x * 32768")
  case True
  have "\<lfloor>x * 32768\<rfloor> < 32768"
    using assms(2) by (simp add: floor_less_iff)
  moreover have "0 \<le> \<lfloor>x * 32768\<rfloor>"
    using True by simp
  ultimately show ?thesis
    using True by (simp add: js_trunc_def)
next
  case False
  have "- 32768 \<le> \<lceil>x * 32768\<rceil>"
    using assms(1) by (simp add: le_ceiling_iff)
  moreover have "\<lceil>x * 32768\<rceil> \<le> 0"
    using False by (simp add: ceiling_le_iff)
  ultimately show ?thesis
    using False by (simp add: js_trunc_def)
qed

lemma js_trunc_error: "\<bar>real_of_int (js_trunc y) - y\<bar> < 1"
proof (cases "0 \<le> y")
  case True
  then have t: "js_trunc y = \<lfloor>y\<rfloor>" by (simp add: js_trunc_def)
  have "real_of_int \<lfloor>y\<rfloor> \<le> y" "y < real_of_int \<lfloor>y\<rfloor> + 1"
    by linarith+
  then show ?thesis unfolding t by linarith
next
  case False
  then have t: "js_trunc y = \<lceil>y\<rceil>" by (simp add: js_trunc_def)
  have "y \<le> real_of_int \<lceil>y\<rceil>" "real_of_int \<lceil>y\<rceil> < y + 1"
    by linarith+
  then show ?thesis unfolding t by linarith
qed

text \<open>
  Claim C9 (float-to-PCM conversion wraps instead of clamping). Every sample \<open>x\<close> is
  stored as \<open>x * 32768\<close> truncated towards zero (the floor of a non-negative product, the
  ceiling of a negative one), reduced modulo \<open>2 ^ 16\<close> into the signed 16-bit range.
  The sample \<open>1.0\<close> is stored as \<open>- 32768\<close> (bytes \<open>00 80\<close>, low byte first), not as
  \<open>32767\<close>, and decodes to \<open>- 1.0\<close>; the sample \<open>1.5\<close> is stored as \<open>- 16384\<close>; the
  negative samples \<open>- 1 / 65536\<close> and \<open>- 3 / 65536\<close> (products \<open>- 1 / 2\<close> and \<open>- 3 / 2\<close>)
  are stored as \<open>0\<close> and \<open>- 1\<close>.
\<close>

theorem createBlob_wraps:
  "map sint (float_to_int16 samples)
      = map (\<lambda>x. ((if 0 \<le> x * 32768 then \<lfloor>x * 32768\<rfloor> else \<lceil>x * 32768\<rceil>) + 32768) mod 65536
                  - 32768) samples
   \<and> data (createBlob samples)
      = encode (concat (map (\<lambda>w. [ucast w, ucast (drop_bit 8 w)]) (float_to_int16 samples)))
   \<and> map sint (float_to_int16 [1, 3 / 2, - 1 / 65536, - 3 / 65536, 3 / 65536, - 1, 32767 / 32768])
      = [- 32768, - 16384, 0, - 1, 1, - 32768, 32767]
   \<and> data (createBlob [1]) = encode [0, 128]
   \<and> decodeFrame (data (createBlob [1]))
        = Inr \<lparr> sampleRate = 24000, channelData = [[- 1]] \<rparr>"
proof -
  have "map sint (float_to_int16 samples)
      = map (\<lambda>x. ((if 0 \<le> x * 32768 then \<lfloor>x * 32768\<rfloor> else \<lceil>x * 32768\<rceil>) + 32768) mod 65536
                  - 32768) samples"
    by (simp add: float_to_int16_def ToInt16_def js_trunc_def int_word_sint)
  moreover have "data (createBlob samples)
      = encode (concat (map (\<lambda>w. [ucast w, ucast (drop_bit 8 w)]) (float_to_int16 samples)))"
  proof -
    have "int16_bytes = (\<lambda>w. [ucast w, ucast (drop_bit 8 w)])"
      by (rule ext) (simp add: int16_bytes_def)
    then show ?thesis by (simp add: createBlob_def)
  qed
  moreover have "map sint (float_to_int16 [1, 3 / 2, - 1 / 65536, - 3 / 65536, 3 / 65536, - 1, 32767 / 32768])
      = [- 32768, - 16384, 0, - 1, 1, - 32768, 32767]"
  proof -
    have 1: "\<lceil>- (1 / 2) :: real\<rceil> = 0" by (rule ceiling_unique) simp_all
    have 2: "\<lceil>- (3 / 2) :: real\<rceil> = - 1" by (rule ceiling_unique) simp_all
    have 3: "\<lfloor>3 / 2 :: real\<rfloor> = 1" by (rule floor_unique) simp_all
    show ?thesis
      by (simp add: float_to_int16_def ToInt16_def js_trunc_def 1 2 3)
  qed
  moreover have "data (createBlob [1]) = encode [0, 128]"
  proof -
    have "int16_bytes (ToInt16 (1 * 32768)) = [0, 128]"
      by (simp add: ToInt16_def js_trunc_def int16_bytes_def)
    then show ?thesis
      by (simp add: createBlob_def float_to_int16_def)
  qed
  moreover have "decodeFrame (data (createBlob [1]))
                   = Inr \<lparr> sampleRate = 24000, channelData = [[- 1]] \<rparr>"
    by (simp add: decodeFrame_createBlob ToInt16_def js_trunc_def)
  ultimately show ?thesis by simp
qed

text \<open>
  Claim C1 as stated (round trip within \<open>1 / 32768\<close> for every sample in \<open>[-1, 1]\<close>)
  fails at the one-sample frame \<open>[1.0]\<close>: the sample is within the stated range, the frame
  decodes to \<open>[- 1.0]\<close>, and the error is \<open>2\<close>.
\<close>

theorem codec_roundtrip_counterexample:
  "(- 1 \<le> (1 :: real) \<and> (1 :: real) \<le> 1)
   \<and> decodeFrame (data (createBlob [1]))
        = Inr \<lparr> sampleRate = 24000, channelData = [[- 1]] \<rparr>
   \<and> \<not> \<bar>(- 1 :: real) - 1\<bar> \<le> 1 / 32768"
  by (simp add: decodeFrame_createBlob ToInt16_def js_trunc_def)

text \<open>
  Claim C1, amended: for every non-empty frame \<open>S\<close> whose samples lie in \<open>[-1, 1)\<close>,
  decoding the payload of \<open>createBlob S\<close> succeeds and gives one channel with one sample
  per sample of \<open>S\<close>, each within \<open>1 / 32768\<close> of the original. (The empty frame is
  refused by \<open>createBuffer\<close>.)
\<close>

theorem codec_roundtrip:
  assumes "S \<noteq> []" and "\<forall>x \<in> set S. - 1 \<le> x \<and> x < 1"
  shows "\<exists>out. decodeFrame (data (createBlob S))
                  = Inr \<lparr> sampleRate = 24000, channelData = [out] \<rparr>
               \<and> list_all2 (\<lambda>y x. \<bar>y - x\<bar> < 1 / 32768) out S"
proof -
  let ?q = "\<lambda>x. real_of_int (sint (ToInt16 (x * 32768))) / 32768"
  have "\<bar>?q x - x\<bar> < 1 / 32768" if "x \<in> set S" for x
  proof -
    from that assms(2) have r: "- 1 \<le> x" "x < 1" by auto
    have s: "sint (ToInt16 (x * 32768)) = js_trunc (x * 32768)"
      using js_trunc_range [OF r] by (simp add: sint_ToInt16)
    have "\<bar>real_of_int (js_trunc (x * 32768)) - x * 32768\<bar> < 1"
      by (rule js_trunc_error)
    then show ?thesis
      unfolding s by (simp add: abs_less_iff field_simps)
  qed
  then have "list_all2 (\<lambda>y x. \<bar>y - x\<bar> < 1 / 32768) (map ?q S) S"
    by (simp add: list_all2_map1 list_all2_same)
  then show ?thesis
    using decodeFrame_createBlob [OF assms(1)] by blast
qed

theorem codec_roundtrip_witness:
  "[45877 / 65536, - 1] \<noteq> ([] :: real list)
   \<and> (- 1 \<le> (45877 / 65536 :: real) \<and> (45877 / 65536 :: real) < 1)
   \<and> (- 1 \<le> (- 1 :: real) \<and> (- 1 :: real) < 1)
   \<and> (\<exists>out. decodeFrame (data (createBlob [45877 / 65536, - 1]))
                  = Inr \<lparr> sampleRate = 24000, channelData = [out] \<rparr>
               \<and> list_all2 (\<lambda>y x. \<bar>y - x\<bar> < 1 / 32768) out [45877 / 65536, - 1])"
  using codec_roundtrip [of "[45877 / 65536, - 1]"] by simp

section \<open>Properties: playback scheduler\<close>

lemma stop_each_nodes:
  "stop_each ss ns h = (if h \<in> set ss then stopped (ns h) else ns h)"
proof (induction ss arbitrary: ns)
  case Nil
  then show ?case by simp
next
  case (Cons s ss)
  show ?case
    by (cases "status (ns s)") (auto simp add: Cons node_stop_def stopped_def)
qed

lemma stop_each_unguarded_started:
  "list_all (\<lambda>h. status (ns h) \<noteq> Created) ss \<Longrightarrow>
     stop_each_unguarded ss ns = (stop_each ss ns, None)"
proof (induction ss arbitrary: ns)
  case Nil
  then show ?case by simp
next
  case (Cons s ss)
  from Cons.prems have s: "status (ns s) \<noteq> Created"
    and ss: "list_all (\<lambda>h. status (ns h) \<noteq> Created) ss" by simp_all
  from s obtain n where n: "node_stop (ns s) = Inr n" "status n \<noteq> Created"
    by (cases "status (ns s)") (auto simp add: node_stop_def)
  have l: "list_all (\<lambda>h. status ((ns (s := n)) h) \<noteq> Created) ss"
    using ss n(2) by (simp add: list_all_iff)
  from l have "stop_each_unguarded ss (ns (s := n)) = (stop_each ss (ns (s := n)), None)"
    by (rule Cons.IH)
  then show ?case
    by (simp add: n(1))
qed

lemma duration_nonneg: "0 \<le> duration b"
  by (simp add: duration_def roundTiesToEven_nonneg)

lemma schedule_source_started:
  assumes "0 \<le> nextStartTime st"
  shows "schedule_source buffer st =
           (st \<lparr> nextStartTime := roundTiesToEven (nextStartTime st + duration buffer),
                 sources := set_add (allocated st) (sources st),
                 nodes := (nodes st) (allocated st :=
                            \<lparr> status = Started, startAt = nextStartTime st,
                              buffer_duration = duration buffer \<rparr>),
                 allocated := Suc (allocated st) \<rparr>, None)"
proof -
  from assms have "\<not> nextStartTime st < 0" by simp
  then show ?thesis
    by (simp add: schedule_source_def Let_def node_start_def)
qed

lemma audio_branch_App_scheduled:
  assumes "decodeFrame b = Inr buffer" and "b \<noteq> []" and "0 \<le> t"
  shows "audio_branch_App (Some b) t st =
           (st \<lparr> nextStartTime := roundTiesToEven (max (nextStartTime st) t + duration buffer),
                 sources := set_add (allocated st) (sources st),
                 nodes := (nodes st) (allocated st :=
                            \<lparr> status = Started, startAt = max (nextStartTime st) t,
                              buffer_duration = duration buffer \<rparr>),
                 allocated := Suc (allocated st) \<rparr>, None)"
proof -
  let ?st1 = "st \<lparr> nextStartTime := max (nextStartTime st) t \<rparr>"
  from assms(3) have "0 \<le> nextStartTime ?st1" by (simp add: le_max_iff_disj)
  then show ?thesis
    using assms(1,2)
    by (simp add: audio_branch_App_def Let_def schedule_source_started)
qed

lemma audio_branch_scheduled:
  assumes "decodeFrame_live b = Inr buffer" and "b \<noteq> []" and "0 \<le> t"
  shows "audio_branch (Some b) t st =
           (st \<lparr> isSpeaking := True, isThinking := False,
                 nextStartTime := roundTiesToEven (max (nextStartTime st) t + duration buffer),
                 sources := set_add (allocated st) (sources st),
                 nodes := (nodes st) (allocated st :=
                            \<lparr> status = Started, startAt = max (nextStartTime st) t,
                              buffer_duration = duration buffer \<rparr>),
                 allocated := Suc (allocated st) \<rparr>, None)"
proof -
  let ?st1 = "st \<lparr> isSpeaking := True, isThinking := False,
                   nextStartTime := max (nextStartTime st) t \<rparr>"
  from assms(3) have "0 \<le> nextStartTime ?st1" by (simp add: le_max_iff_disj)
  then show ?thesis
    using assms(1,2)
    by (simp add: audio_branch_def Let_def schedule_source_started)
qed

lemma gapless_from_raise:
  assumes "gapless_from a st" and "double t"
  shows "gapless_from a (st \<lparr> nextStartTime := max (nextStartTime st) t \<rparr>)"
proof -
  have d: "double (max (nextStartTime st) t)"
    using assms by (simp add: gapless_from_def double_max)
  have o: "\<And>i. a \<le> i \<Longrightarrow> i < allocated st \<Longrightarrow>
      roundTiesToEven (startAt (nodes st i) + buffer_duration (nodes st i)) \<le> nextStartTime st
      \<and> startAt (nodes st i) \<le> nextStartTime st \<and> 0 \<le> buffer_duration (nodes st i)"
    using assms(1) unfolding gapless_from_def by blast
  have p: "\<And>i j. a \<le> i \<Longrightarrow> i < j \<Longrightarrow> j < allocated st \<Longrightarrow>
      roundTiesToEven (startAt (nodes st i) + buffer_duration (nodes st i)) \<le> startAt (nodes st j)
      \<and> startAt (nodes st i) \<le> startAt (nodes st j)"
    using assms(1) unfolding gapless_from_def by blast
  show ?thesis
    unfolding gapless_from_def
  proof (intro conjI allI impI)
    show "double (nextStartTime (st \<lparr> nextStartTime := max (nextStartTime st) t \<rparr>))"
      using d by simp
  next
    fix i
    assume "a \<le> i \<and> i < allocated (st \<lparr> nextStartTime := max (nextStartTime st) t \<rparr>)"
    then have i: "a \<le> i" "i < allocated st" by simp_all
    show "roundTiesToEven (startAt (nodes (st \<lparr> nextStartTime := max (nextStartTime st) t \<rparr>) i)
              + buffer_duration (nodes (st \<lparr> nextStartTime := max (nextStartTime st) t \<rparr>) i))
            \<le> nextStartTime (st \<lparr> nextStartTime := max (nextStartTime st) t \<rparr>)"
      using o [OF i] by (simp add: le_max_iff_disj)
    show "startAt (nodes (st \<lparr> nextStartTime := max (nextStartTime st) t \<rparr>) i)
            \<le> nextStartTime (st \<lparr> nextStartTime := max (nextStartTime st) t \<rparr>)"
      using o [OF i] by (simp add: le_max_iff_disj)
    show "0 \<le> buffer_duration (nodes (st \<lparr> nextStartTime := max (nextStartTime st) t \<rparr>) i)"
      using o [OF i] by simp
  next
    fix i j
    assume "a \<le> i \<and> i < j
      \<and> j < allocated (st \<lparr> nextStartTime := max (nextStartTime st) t \<rparr>)"
    then have ij: "a \<le> i" "i < j" "j < allocated st" by simp_all
    show "roundTiesToEven (startAt (nodes (st \<lparr> nextStartTime := max (nextStartTime st) t \<rparr>) i)
              + buffer_duration (nodes (st \<lparr> nextStartTime := max (nextStartTime st) t \<rparr>) i))
            \<le> startAt (nodes (st \<lparr> nextStartTime := max (nextStartTime st) t \<rparr>) j)"
      using p [OF ij] by simp
    show "startAt (nodes (st \<lparr> nextStartTime := max (nextStartTime st) t \<rparr>) i)
            \<le> startAt (nodes (st \<lparr> nextStartTime := max (nextStartTime st) t \<rparr>) j)"
      using p [OF ij] by simp
  qed
qed

lemma gapless_from_schedule:
  assumes g: "gapless_from a st" and n: "0 \<le> nextStartTime st"
  shows "gapless_from a (fst (schedule_source buffer st))"
proof -
  let ?A = "allocated st"
  let ?m = "nextStartTime st"
  let ?d = "duration buffer"
  let ?n = "roundTiesToEven (?m + ?d)"
  let ?st' = "st \<lparr> nextStartTime := ?n,
                   sources := set_add ?A (sources st),
                   nodes := (nodes st) (?A :=
                              \<lparr> status = Started, startAt = ?m, buffer_duration = ?d \<rparr>),
                   allocated := Suc ?A \<rparr>"
  have d0: "0 \<le> ?d" by (rule duration_nonneg)
  have dm: "roundTiesToEven ?m = ?m"
    using g by (simp add: gapless_from_def double_def)
  have "roundTiesToEven ?m \<le> ?n"
    using n d0 by (intro roundTiesToEven_mono) simp_all
  then have mn: "?m \<le> ?n" by (simp only: dm)
  have dn: "double ?n"
    unfolding double_def using n d0 by (intro roundTiesToEven_idem) simp
  have o: "\<And>i. a \<le> i \<Longrightarrow> i < ?A \<Longrightarrow>
      roundTiesToEven (startAt (nodes st i) + buffer_duration (nodes st i)) \<le> ?m
      \<and> startAt (nodes st i) \<le> ?m \<and> 0 \<le> buffer_duration (nodes st i)"
    using g unfolding gapless_from_def by blast
  have p: "\<And>i j. a \<le> i \<Longrightarrow> i < j \<Longrightarrow> j < ?A \<Longrightarrow>
      roundTiesToEven (startAt (nodes st i) + buffer_duration (nodes st i)) \<le> startAt (nodes st j)
      \<and> startAt (nodes st i) \<le> startAt (nodes st j)"
    using g unfolding gapless_from_def by blast
  have "gapless_from a ?st'"
    unfolding gapless_from_def
  proof (intro conjI allI impI)
    show "double (nextStartTime ?st')" using dn by simp
  next
    fix i
    assume "a \<le> i \<and> i < allocated ?st'"
    then have i: "a \<le> i" "i < Suc ?A" by simp_all
    show "roundTiesToEven (startAt (nodes ?st' i) + buffer_duration (nodes ?st' i))
            \<le> nextStartTime ?st'"
    proof (cases "i = ?A")
      case True
      then show ?thesis by simp
    next
      case False
      with i have "i < ?A" by simp
      with o [OF i(1)] mn False show ?thesis by simp
    qed
    show "startAt (nodes ?st' i) \<le> nextStartTime ?st'"
    proof (cases "i = ?A")
      case True
      then show ?thesis using mn by simp
    next
      case False
      with i have "i < ?A" by simp
      with o [OF i(1)] mn False show ?thesis by simp
    qed
    show "0 \<le> buffer_duration (nodes ?st' i)"
    proof (cases "i = ?A")
      case True
      then show ?thesis using d0 by simp
    next
      case False
      with i have "i < ?A" by simp
      with o [OF i(1)] False show ?thesis by simp
    qed
  next
    fix i j
    assume "a \<le> i \<and> i < j \<and> j < allocated ?st'"
    then have ij: "a \<le> i" "i < j" "j < Suc ?A" by simp_all
    then have iA: "i < ?A" "i \<noteq> ?A" by simp_all
    show "roundTiesToEven (startAt (nodes ?st' i) + buffer_duration (nodes ?st' i))
            \<le> startAt (nodes ?st' j)"
    proof (cases "j = ?A")
      case True
      then show ?thesis using o [OF ij(1) iA(1)] iA(2) by simp
    next
      case False
      with ij have "j < ?A" by simp
      with p [OF ij(1,2)] False iA(2) show ?thesis by simp
    qed
    show "startAt (nodes ?st' i) \<le> startAt (nodes ?st' j)"
    proof (cases "j = ?A")
      case True
      then show ?thesis using o [OF ij(1) iA(1)] iA(2) by simp
    next
      case False
      with ij have "j < ?A" by simp
      with p [OF ij(1,2)] False iA(2) show ?thesis by simp
    qed
  qed
  then show ?thesis by (simp add: schedule_source_started [OF n])
qed

lemma gapless_from_audio_App:
  assumes g: "gapless_from a st" and t: "0 \<le> t" "double t"
  shows "gapless_from a (fst (audio_branch_App b t st))"
proof (cases "b = None \<or> b = Some []")
  case True
  then show ?thesis using g by (auto simp add: audio_branch_App_def)
next
  case False
  then obtain p where p: "b = Some p" "p \<noteq> []" by auto
  let ?st1 = "st \<lparr> nextStartTime := max (nextStartTime st) t \<rparr>"
  have g1: "gapless_from a ?st1" using g t(2) by (rule gapless_from_raise)
  have n1: "0 \<le> nextStartTime ?st1" using t(1) by (simp add: le_max_iff_disj)
  show ?thesis
  proof (cases "decodeFrame p")
    case (Inl e)
    then show ?thesis using p g1 by (simp add: audio_branch_App_def)
  next
    case (Inr buffer)
    have "gapless_from a (fst (schedule_source buffer ?st1))"
      using g1 n1 by (rule gapless_from_schedule)
    then show ?thesis using p Inr by (simp add: audio_branch_App_def)
  qed
qed

lemma gapless_from_audio:
  assumes g: "gapless_from a st" and t: "0 \<le> t" "double t"
  shows "gapless_from a (fst (audio_branch b t st))"
proof (cases "b = None \<or> b = Some []")
  case True
  then show ?thesis using g by (auto simp add: audio_branch_def)
next
  case False
  then obtain p where p: "b = Some p" "p \<noteq> []" by auto
  let ?st0 = "st \<lparr> isSpeaking := True, isThinking := False \<rparr>"
  let ?st1 = "?st0 \<lparr> nextStartTime := max (nextStartTime ?st0) t \<rparr>"
  have g0: "gapless_from a ?st0" using g by (simp add: gapless_from_def)
  have g1: "gapless_from a ?st1" using g0 t(2) by (rule gapless_from_raise)
  have n1: "0 \<le> nextStartTime ?st1" using t(1) by (simp add: le_max_iff_disj)
  show ?thesis
  proof (cases "decodeFrame_live p")
    case (Inl e)
    then show ?thesis using p g1 by (simp add: audio_branch_def)
  next
    case (Inr buffer)
    have "gapless_from a (fst (schedule_source buffer ?st1))"
      using g1 n1 by (rule gapless_from_schedule)
    then show ?thesis using p Inr by (simp add: audio_branch_def)
  qed
qed

lemma gapless_from_play_all_App:
  assumes "gapless_from a st" and "list_all (\<lambda>(b, t). 0 \<le> t \<and> double t) ms"
  shows "gapless_from a (play_all_App ms st)"
  using assms
proof (induction ms arbitrary: st)
  case Nil
  then show ?case by simp
next
  case (Cons m ms)
  obtain b t where m: "m = (b, t)" by (cases m)
  from Cons.prems(2) m have t: "0 \<le> t" "double t"
    and ms: "list_all (\<lambda>(b, t). 0 \<le> t \<and> double t) ms" by simp_all
  have "gapless_from a (fst (audio_branch_App b t st))"
    using Cons.prems(1) t by (rule gapless_from_audio_App)
  then have "gapless_from a (play_all_App ms (fst (audio_branch_App b t st)))"
    using ms by (rule Cons.IH)
  then show ?case by (simp add: m)
qed

lemma gapless_from_play_all:
  assumes "gapless_from a st" and "list_all (\<lambda>(b, t). 0 \<le> t \<and> double t) ms"
  shows "gapless_from a (play_all ms st)"
  using assms
proof (induction ms arbitrary: st)
  case Nil
  then show ?case by simp
next
  case (Cons m ms)
  obtain b t where m: "m = (b, t)" by (cases m)
  from Cons.prems(2) m have t: "0 \<le> t" "double t"
    and ms: "list_all (\<lambda>(b, t). 0 \<le> t \<and> double t) ms" by simp_all
  have "gapless_from a (fst (audio_branch b t st))"
    using Cons.prems(1) t by (rule gapless_from_audio)
  then have "gapless_from a (play_all ms (fst (audio_branch b t st)))"
    using ms by (rule Cons.IH)
  then show ?case by (simp add: m)
qed

lemma allocated_audio_App:
  assumes "0 \<le> t"
  shows "allocated (fst (audio_branch_App b t st))
           = allocated st + (if decodable_App (b, t) then 1 else 0)"
proof (cases "b = None \<or> b = Some []")
  case True
  then show ?thesis by (auto simp add: audio_branch_App_def decodable_App_def)
next
  case False
  then obtain p where p: "b = Some p" "p \<noteq> []" by auto
  show ?thesis
  proof (cases "decodeFrame p")
    case (Inl e)
    then show ?thesis
      using p by (simp add: audio_branch_App_def decodable_App_def)
  next
    case (Inr buffer)
    then show ?thesis
      using p by (simp add: audio_branch_App_scheduled [OF Inr p(2) assms] decodable_App_def)
  qed
qed

lemma allocated_audio:
  assumes "0 \<le> t"
  shows "allocated (fst (audio_branch b t st))
           = allocated st + (if decodable (b, t) then 1 else 0)"
proof (cases "b = None \<or> b = Some []")
  case True
  then show ?thesis by (auto simp add: audio_branch_def decodable_def)
next
  case False
  then obtain p where p: "b = Some p" "p \<noteq> []" by auto
  show ?thesis
  proof (cases "decodeFrame_live p")
    case (Inl e)
    then show ?thesis
      using p by (simp add: audio_branch_def decodable_def)
  next
    case (Inr buffer)
    then show ?thesis
      using p by (simp add: audio_branch_scheduled [OF Inr p(2) assms] decodable_def)
  qed
qed

lemma allocated_play_all_App:
  assumes "list_all (\<lambda>(b, t). 0 \<le> t \<and> double t) ms"
  shows "allocated (play_all_App ms st) = allocated st + length (filter decodable_App ms)"
  using assms
proof (induction ms arbitrary: st)
  case Nil
  then show ?case by simp
next
  case (Cons m ms)
  obtain b t where m: "m = (b, t)" by (cases m)
  from Cons.prems m have t: "0 \<le> t"
    and ms: "list_all (\<lambda>(b, t). 0 \<le> t \<and> double t) ms" by simp_all
  show ?case
    using Cons.IH [OF ms, of "fst (audio_branch_App b t st)"] allocated_audio_App [OF t, of b st] m
    by simp
qed

lemma allocated_play_all:
  assumes "list_all (\<lambda>(b, t). 0 \<le> t \<and> double t) ms"
  shows "allocated (play_all ms st) = allocated st + length (filter decodable ms)"
  using assms
proof (induction ms arbitrary: st)
  case Nil
  then show ?case by simp
next
  case (Cons m ms)
  obtain b t where m: "m = (b, t)" by (cases m)
  from Cons.prems m have t: "0 \<le> t"
    and ms: "list_all (\<lambda>(b, t). 0 \<le> t \<and> double t) ms" by simp_all
  show ?case
    using Cons.IH [OF ms, of "fst (audio_branch b t st)"] allocated_audio [OF t, of b st] m
    by simp
qed

lemma gapless_from_fresh: "double (nextStartTime st) \<Longrightarrow> gapless_from (allocated st) st"
  by (simp add: gapless_from_def)

lemma gapless_pairs:
  assumes "gapless_from a st" and "a \<le> i" and "i < j" and "j < allocated st"
  shows "startAt (nodes st i) \<le> startAt (nodes st j)
         \<and> roundTiesToEven (startAt (nodes st i) + buffer_duration (nodes st i))
              \<le> startAt (nodes st j)
         \<and> startAt (nodes st i) + buffer_duration (nodes st i)
              \<le> startAt (nodes st j) + ulp (startAt (nodes st i) + buffer_duration (nodes st i)) / 2"
proof -
  let ?x = "startAt (nodes st i) + buffer_duration (nodes st i)"
  have 1: "roundTiesToEven ?x \<le> startAt (nodes st j)"
    and 2: "startAt (nodes st i) \<le> startAt (nodes st j)"
    using assms unfolding gapless_from_def by blast+
  have "\<bar>roundTiesToEven ?x - ?x\<bar> \<le> ulp ?x / 2" by (rule roundTiesToEven_error)
  then have "?x \<le> roundTiesToEven ?x + ulp ?x / 2" by linarith
  with 1 have "?x \<le> startAt (nodes st j) + ulp ?x / 2" by linarith
  with 1 2 show ?thesis by blast
qed

text \<open>
  Claim C2, amended. A decodable chunk handled at clock reading \<open>t\<close> is started at
  \<open>max nextStartTime t\<close>, and \<open>nextStartTime\<close> becomes the double nearest to that start plus
  the chunk's duration (the voice-enabled assistant view also sets its speaking flag and
  clears its thinking flag). For every sequence of inbound chunks whose clock readings
  are non-negative doubles, in \<^verbatim>\<open>App.tsx\<close> and in the assistant view, every decodable
  chunk is scheduled, and for any two of the scheduled sources the start times are
  non-decreasing and the later source starts no earlier than the rounded end of the
  earlier one, which is below the exact end by at most half a unit in its last place.
  The last conjuncts fix the rounding at a quotient of the scheduler (\<open>2 / 24000\<close>), at
  \<open>1 / 10\<close>, at two ties and in the subnormal range.
\<close>

theorem playback_gapless:
  "(decodeFrame b = Inr buffer \<and> b \<noteq> [] \<and> 0 \<le> t \<longrightarrow>
      audio_branch_App (Some b) t st =
        (st \<lparr> nextStartTime := roundTiesToEven (max (nextStartTime st) t + duration buffer),
              sources := set_add (allocated st) (sources st),
              nodes := (nodes st) (allocated st :=
                         \<lparr> status = Started, startAt = max (nextStartTime st) t,
                           buffer_duration = duration buffer \<rparr>),
              allocated := Suc (allocated st) \<rparr>, None))
   \<and> (decodeFrame_live b = Inr buffer \<and> b \<noteq> [] \<and> 0 \<le> t \<longrightarrow>
      audio_branch (Some b) t sl =
        (sl \<lparr> isSpeaking := True, isThinking := False,
              nextStartTime := roundTiesToEven (max (nextStartTime sl) t + duration buffer),
              sources := set_add (allocated sl) (sources sl),
              nodes := (nodes sl) (allocated sl :=
                         \<lparr> status = Started, startAt = max (nextStartTime sl) t,
                           buffer_duration = duration buffer \<rparr>),
              allocated := Suc (allocated sl) \<rparr>, None))
   \<and> (double (nextStartTime st) \<and> list_all (\<lambda>(b, t). 0 \<le> t \<and> double t) ms \<longrightarrow>
        allocated (play_all_App ms st) = allocated st + length (filter decodable_App ms)
        \<and> (\<forall>i j. allocated st \<le> i \<and> i < j \<and> j < allocated (play_all_App ms st) \<longrightarrow>
               startAt (nodes (play_all_App ms st) i) \<le> startAt (nodes (play_all_App ms st) j)
               \<and> roundTiesToEven (startAt (nodes (play_all_App ms st) i)
                                   + buffer_duration (nodes (play_all_App ms st) i))
                    \<le> startAt (nodes (play_all_App ms st) j)
               \<and> startAt (nodes (play_all_App ms st) i)
                   + buffer_duration (nodes (play_all_App ms st) i)
                    \<le> startAt (nodes (play_all_App ms st) j)
                       + ulp (startAt (nodes (play_all_App ms st) i)
                              + buffer_duration (nodes (play_all_App ms st) i)) / 2))
   \<and> (double (nextStartTime sl) \<and> list_all (\<lambda>(b, t). 0 \<le> t \<and> double t) ms \<longrightarrow>
        allocated (play_all ms sl) = allocated sl + length (filter decodable ms)
        \<and> (\<forall>i j. allocated sl \<le> i \<and> i < j \<and> j < allocated (play_all ms sl) \<longrightarrow>
               startAt (nodes (play_all ms sl) i) \<le> startAt (nodes (play_all ms sl) j)
               \<and> roundTiesToEven (startAt (nodes (play_all ms sl) i)
                                   + buffer_duration (nodes (play_all ms sl) i))
                    \<le> startAt (nodes (play_all ms sl) j)
               \<and> startAt (nodes (play_all ms sl) i)
                   + buffer_duration (nodes (play_all ms sl) i)
                    \<le> startAt (nodes (play_all ms sl) j)
                       + ulp (startAt (nodes (play_all ms sl) i)
                              + buffer_duration (nodes (play_all ms sl) i)) / 2))
   \<and> roundTiesToEven (1 / 12000) = 6148914691236517 / 2 ^ 66
   \<and> roundTiesToEven (1 / 10) = 3602879701896397 / 2 ^ 55
   \<and> roundTiesToEven (1 + 1 / 2 ^ 53) = 1
   \<and> roundTiesToEven (1 + 3 / 2 ^ 53) = 1 + 1 / 2 ^ 51
   \<and> roundTiesToEven (3 / 2 ^ 1075) = 1 / 2 ^ 1073"
proof (intro conjI impI allI)
  assume "decodeFrame b = Inr buffer \<and> b \<noteq> [] \<and> 0 \<le> t"
  then show "audio_branch_App (Some b) t st =
        (st \<lparr> nextStartTime := roundTiesToEven (max (nextStartTime st) t + duration buffer),
              sources := set_add (allocated st) (sources st),
              nodes := (nodes st) (allocated st :=
                         \<lparr> status = Started, startAt = max (nextStartTime st) t,
                           buffer_duration = duration buffer \<rparr>),
              allocated := Suc (allocated st) \<rparr>, None)"
    by (intro audio_branch_App_scheduled) simp_all
next
  assume "decodeFrame_live b = Inr buffer \<and> b \<noteq> [] \<and> 0 \<le> t"
  then show "audio_branch (Some b) t sl =
        (sl \<lparr> isSpeaking := True, isThinking := False,
              nextStartTime := roundTiesToEven (max (nextStartTime sl) t + duration buffer),
              sources := set_add (allocated sl) (sources sl),
              nodes := (nodes sl) (allocated sl :=
                         \<lparr> status = Started, startAt = max (nextStartTime sl) t,
                           buffer_duration = duration buffer \<rparr>),
              allocated := Suc (allocated sl) \<rparr>, None)"
    by (intro audio_branch_scheduled) simp_all
next
  assume "double (nextStartTime st) \<and> list_all (\<lambda>(b, t). 0 \<le> t \<and> double t) ms"
  then show "allocated (play_all_App ms st) = allocated st + length (filter decodable_App ms)"
    by (intro allocated_play_all_App) simp
next
  fix i j
  assume a: "double (nextStartTime st) \<and> list_all (\<lambda>(b, t). 0 \<le> t \<and> double t) ms"
    and ij: "allocated st \<le> i \<and> i < j \<and> j < allocated (play_all_App ms st)"
  have g: "gapless_from (allocated st) (play_all_App ms st)"
    using a by (intro gapless_from_play_all_App gapless_from_fresh) simp_all
  have r: "startAt (nodes (play_all_App ms st) i) \<le> startAt (nodes (play_all_App ms st) j)
         \<and> roundTiesToEven (startAt (nodes (play_all_App ms st) i)
                             + buffer_duration (nodes (play_all_App ms st) i))
              \<le> startAt (nodes (play_all_App ms st) j)
         \<and> startAt (nodes (play_all_App ms st) i) + buffer_duration (nodes (play_all_App ms st) i)
              \<le> startAt (nodes (play_all_App ms st) j)
                 + ulp (startAt (nodes (play_all_App ms st) i)
                        + buffer_duration (nodes (play_all_App ms st) i)) / 2"
    using gapless_pairs [OF g, of i j] ij by blast
  from r show "startAt (nodes (play_all_App ms st) i) \<le> startAt (nodes (play_all_App ms st) j)"
    by blast
  from r show "roundTiesToEven (startAt (nodes (play_all_App ms st) i)
                                   + buffer_duration (nodes (play_all_App ms st) i))
                    \<le> startAt (nodes (play_all_App ms st) j)"
    by blast
  from r show "startAt (nodes (play_all_App ms st) i)
                   + buffer_duration (nodes (play_all_App ms st) i)
                    \<le> startAt (nodes (play_all_App ms st) j)
                       + ulp (startAt (nodes (play_all_App ms st) i)
                              + buffer_duration (nodes (play_all_App ms st) i)) / 2"
    by blast
next
  assume "double (nextStartTime sl) \<and> list_all (\<lambda>(b, t). 0 \<le> t \<and> double t) ms"
  then show "allocated (play_all ms sl) = allocated sl + length (filter decodable ms)"
    by (intro allocated_play_all) simp
next
  fix i j
  assume a: "double (nextStartTime sl) \<and> list_all (\<lambda>(b, t). 0 \<le> t \<and> double t) ms"
    and ij: "allocated sl \<le> i \<and> i < j \<and> j < allocated (play_all ms sl)"
  have g: "gapless_from (allocated sl) (play_all ms sl)"
    using a by (intro gapless_from_play_all gapless_from_fresh) simp_all
  have r: "startAt (nodes (play_all ms sl) i) \<le> startAt (nodes (play_all ms sl) j)
         \<and> roundTiesToEven (startAt (nodes (play_all ms sl) i)
                             + buffer_duration (nodes (play_all ms sl) i))
              \<le> startAt (nodes (play_all ms sl) j)
         \<and> startAt (nodes (play_all ms sl) i) + buffer_duration (nodes (play_all ms sl) i)
              \<le> startAt (nodes (play_all ms sl) j)
                 + ulp (startAt (nodes (play_all ms sl) i)
                        + buffer_duration (nodes (play_all ms sl) i)) / 2"
    using gapless_pairs [OF g, of i j] ij by blast
  from r show "startAt (nodes (play_all ms sl) i) \<le> startAt (nodes (play_all ms sl) j)"
    by blast
  from r show "roundTiesToEven (startAt (nodes (play_all ms sl) i)
                                   + buffer_duration (nodes (play_all ms sl) i))
                    \<le> startAt (nodes (play_all ms sl) j)"
    by blast
  from r show "startAt (nodes (play_all ms sl) i)
                   + buffer_duration (nodes (play_all ms sl) i)
                    \<le> startAt (nodes (play_all ms sl) j)
                       + ulp (startAt (nodes (play_all ms sl) i)
                              + buffer_duration (nodes (play_all ms sl) i)) / 2"
    by blast
next
  show "roundTiesToEven (1 / 12000) = 6148914691236517 / 2 ^ 66"
    by (rule duration_two_frames)
next
  show "roundTiesToEven (1 / 10) = 3602879701896397 / 2 ^ 55"
    using ties_to_even by blast
next
  show "roundTiesToEven (1 + 1 / 2 ^ 53) = 1"
    using ties_to_even by blast
next
  show "roundTiesToEven (1 + 3 / 2 ^ 53) = 1 + 1 / 2 ^ 51"
    using ties_to_even by blast
next
  show "roundTiesToEven (3 / 2 ^ 1075) = 1 / 2 ^ 1073"
    using ties_to_even by blast
qed

lemma bytes_sextets_nonempty: "bs \<noteq> [] \<Longrightarrow> bytes_sextets bs \<noteq> []"
  by (induction bs rule: bytes_sextets.induct) simp_all

lemma createBlob_data_nonempty: "S \<noteq> [] \<Longrightarrow> data (createBlob S) \<noteq> []"
proof -
  assume "S \<noteq> []"
  then have "concat (map int16_bytes (float_to_int16 S)) \<noteq> []"
    by (cases S) (simp_all add: int16_bytes_def float_to_int16_def)
  then show ?thesis
    by (simp add: createBlob_def encode_def btoa_def Let_def bytes_sextets_nonempty)
qed

lemma decodeFrame_silence:
  "decodeFrame (data (createBlob [0, 0])) = Inr \<lparr> sampleRate = 24000, channelData = [[0, 0]] \<rparr>"
  by (simp add: decodeFrame_createBlob ToInt16_def js_trunc_def)

lemma duration_silence:
  "duration \<lparr> sampleRate = 24000, channelData = [[0, 0]] \<rparr> = 6148914691236517 / 2 ^ 66"
proof -
  have "duration \<lparr> sampleRate = 24000, channelData = [[0, 0]] \<rparr> = roundTiesToEven (1 / 12000)"
    by (simp add: duration_def frames_def)
  then show ?thesis by (simp only: duration_two_frames)
qed

lemma end_of_first_chunk_normal:
  "roundTiesToEven (18452892988400788133 / 73786976294838206464)
     = 2252550413623143 / 9007199254740992"
proof -
  have a: "(18452892988400788133 / 73786976294838206464 :: real)
             = 1 / 4 + 6148914691236517 / 2 ^ 66" by simp
  have b: "(2252550413623143 / 9007199254740992 :: real) = 2252550413623143 / 2 ^ 53" by simp
  show ?thesis unfolding a b by (rule end_of_first_chunk)
qed

theorem playback_gapless_witness:
  "(decodeFrame (data (createBlob [0, 0]))
        = Inr \<lparr> sampleRate = 24000, channelData = [[0, 0]] \<rparr>
      \<and> data (createBlob [0, 0]) \<noteq> [] \<and> (0 :: real) \<le> 1 / 4)
   \<and> (decodeFrame_live (data (createBlob [0, 0]))
        = Inr \<lparr> sampleRate = 24000, channelData = [[0, 0]] \<rparr>
      \<and> data (createBlob [0, 0]) \<noteq> [] \<and> (0 :: real) \<le> 1 / 4)
   \<and> (double (nextStartTime fresh_playback)
      \<and> list_all (\<lambda>(b, t). 0 \<le> t \<and> double t) two_chunks)
   \<and> (double (nextStartTime initial_live)
      \<and> list_all (\<lambda>(b, t). 0 \<le> t \<and> double t) two_chunks)
   \<and> audio_branch_App (Some (data (createBlob [0, 0]))) (1 / 4) fresh_playback =
        (fresh_playback \<lparr> nextStartTime := 2252550413623143 / 2 ^ 53, sources := [0],
            nodes := (nodes fresh_playback) (0 :=
                        \<lparr> status = Started, startAt = 1 / 4,
                          buffer_duration = 6148914691236517 / 2 ^ 66 \<rparr>),
            allocated := 1 \<rparr>, None)
   \<and> audio_branch (Some (data (createBlob [0, 0]))) (1 / 4) initial_live =
        (initial_live \<lparr> isSpeaking := True, isThinking := False,
            nextStartTime := 2252550413623143 / 2 ^ 53, sources := [0],
            nodes := (nodes initial_live) (0 :=
                        \<lparr> status = Started, startAt = 1 / 4,
                          buffer_duration = 6148914691236517 / 2 ^ 66 \<rparr>),
            allocated := 1 \<rparr>, None)
   \<and> allocated (play_all_App two_chunks fresh_playback) = 2
   \<and> allocated (play_all two_chunks initial_live) = 2"
proof -
  have d: "double (1 / 4)" by (rule double_quarter)
  have e: "max 0 (1 / 4 :: real) = 1 / 4" by simp
  have f: "decodable_App (Some (data (createBlob [0, 0])), 1 / 4)"
    "decodable (Some (data (createBlob [0, 0])), 1 / 4)"
    by (simp_all add: decodable_App_def decodable_def decodeFrame_live_createBlob
        decodeFrame_silence createBlob_data_nonempty)
  have n: "nextStartTime fresh_playback = 0" "allocated fresh_playback = 0"
    "sources fresh_playback = []" "nextStartTime initial_live = 0" "allocated initial_live = 0"
    "sources initial_live = []"
    by (simp_all add: fresh_playback_def initial_live_def playback.defs)
  show ?thesis
    using playback_gapless [of "data (createBlob [0, 0])"
        "\<lparr> sampleRate = 24000, channelData = [[0, 0]] \<rparr>" "1 / 4" fresh_playback
        initial_live two_chunks]
    by (simp add: decodeFrame_live_createBlob decodeFrame_silence createBlob_data_nonempty
        two_chunks_def d double_0 n e f duration_silence end_of_first_chunk_normal
        set_add_def allocated_audio_App allocated_audio
        del: fun_upd_apply)
qed

lemma two_chunks_App:
  "startAt (nodes (play_all_App two_chunks fresh_playback) 0) = 1 / 4
   \<and> buffer_duration (nodes (play_all_App two_chunks fresh_playback) 0)
       = 6148914691236517 / 2 ^ 66
   \<and> startAt (nodes (play_all_App two_chunks fresh_playback) 1) = 2252550413623143 / 2 ^ 53"
proof -
  let ?c = "data (createBlob [0, 0])"
  let ?b = "\<lparr> sampleRate = 24000, channelData = [[0, 0]] \<rparr>"
  let ?s1 = "fresh_playback \<lparr> nextStartTime := 2252550413623143 / 2 ^ 53,
              sources := set_add 0 [],
              nodes := (nodes fresh_playback) (0 :=
                         \<lparr> status = Started, startAt = 1 / 4,
                           buffer_duration = 6148914691236517 / 2 ^ 66 \<rparr>),
              allocated := Suc 0 \<rparr>"
  have c: "?c \<noteq> []" by (simp add: createBlob_data_nonempty)
  have q: "(0 :: real) \<le> 1 / 4" by simp
  have 1: "audio_branch_App (Some ?c) (1 / 4) fresh_playback = (?s1, None)"
    using audio_branch_App_scheduled [OF decodeFrame_silence c q, of fresh_playback]
    by (simp add: fresh_playback_def duration_silence end_of_first_chunk_normal)
  have m: "max (2252550413623143 / 2 ^ 53) (1 / 4 :: real) = 2252550413623143 / 2 ^ 53"
    by simp
  have 2: "audio_branch_App (Some ?c) (1 / 4) ?s1 =
            (?s1 \<lparr> nextStartTime := roundTiesToEven (max (nextStartTime ?s1) (1 / 4) + duration ?b),
                  sources := set_add (allocated ?s1) (sources ?s1),
                  nodes := (nodes ?s1) (allocated ?s1 :=
                             \<lparr> status = Started, startAt = max (nextStartTime ?s1) (1 / 4),
                               buffer_duration = duration ?b \<rparr>),
                  allocated := Suc (allocated ?s1) \<rparr>, None)"
    using decodeFrame_silence c q by (rule audio_branch_App_scheduled)
  have "play_all_App two_chunks fresh_playback = fst (audio_branch_App (Some ?c) (1 / 4) ?s1)"
    by (simp add: two_chunks_def 1)
  then show ?thesis
    unfolding 2 using m by simp
qed

text \<open>
  Claim C2 as stated (\<open>startAt\<close> of the next chunk is at least \<open>startAt + duration\<close> of the
  chunk before) fails in \<^verbatim>\<open>App.tsx\<close> on two chunks of two frames handled at clock
  reading \<open>0.25\<close>: the first starts at \<open>0.25\<close> and lasts \<open>6148914691236517 / 2 ^ 66\<close> (the
  double nearest to \<open>2 / 24000\<close>); the sum is not a double, \<^verbatim>\<open>nextStartTime\<close> becomes
  the double \<open>2252550413623143 / 2 ^ 53\<close> below it, and the second chunk starts there.
\<close>

theorem playback_gapless_counterexample:
  "(0 :: real) \<le> 1 / 4 \<and> double (1 / 4) \<and> double (nextStartTime fresh_playback)
   \<and> startAt (nodes (play_all_App two_chunks fresh_playback) 0) = 1 / 4
   \<and> buffer_duration (nodes (play_all_App two_chunks fresh_playback) 0)
        = 6148914691236517 / 2 ^ 66
   \<and> startAt (nodes (play_all_App two_chunks fresh_playback) 1) = 2252550413623143 / 2 ^ 53
   \<and> startAt (nodes (play_all_App two_chunks fresh_playback) 1)
        < startAt (nodes (play_all_App two_chunks fresh_playback) 0)
          + buffer_duration (nodes (play_all_App two_chunks fresh_playback) 0)"
proof -
  have "(2252550413623143 / 2 ^ 53 :: real) < 1 / 4 + 6148914691236517 / 2 ^ 66" by simp
  then show ?thesis
    using two_chunks_App double_quarter double_0 by (simp add: fresh_playback_def)
qed

lemma sources_started_audio:
  assumes "sources_started st"
  shows "sources_started (fst (audio_branch_App b t st))"
proof (cases "b = None \<or> b = Some []")
  case True
  then show ?thesis using assms by (auto simp add: audio_branch_App_def)
next
  case False
  then obtain p where p: "b = Some p" "p \<noteq> []" by auto
  have old: "\<forall>h \<in> set (sources st). h < allocated st \<and> status (nodes st h) \<noteq> Created"
    using assms by (simp add: sources_started_def list_all_iff)
  show ?thesis
  proof (cases "decodeFrame p")
    case (Inl e)
    then show ?thesis
      using p assms
      by (simp add: audio_branch_App_def sources_started_def)
  next
    case (Inr buffer)
    then show ?thesis
      using p old
      by (auto simp add: audio_branch_App_def schedule_source_def Let_def node_start_def
          sources_started_def list_all_iff set_add_def)
  qed
qed

lemma sources_started_ended:
  assumes "sources_started st"
  shows "sources_started (on_ended h st)"
  using assms
  by (auto simp add: on_ended_def sources_started_def list_all_iff set_delete_def)

lemma interrupted_branch_App_started:
  assumes "sources_started st"
  shows "interrupted_branch_App st =
           (st \<lparr> nodes := stop_each (sources st) (nodes st), sources := [],
                 nextStartTime := 0 \<rparr>, None)"
proof -
  have "list_all (\<lambda>h. status (nodes st h) \<noteq> Created) (sources st)"
    using assms by (simp add: sources_started_def list_all_iff)
  then show ?thesis
    by (simp add: interrupted_branch_App_def stop_each_unguarded_started)
qed

lemma sources_started_interrupted:
  assumes "sources_started st"
  shows "sources_started (fst (interrupted_branch_App st))"
  by (simp add: interrupted_branch_App_started [OF assms] sources_started_def)

lemma sources_started_fold:
  "sources_started st \<Longrightarrow> sources_started (fold playback_step_App evs st)"
proof (induction evs arbitrary: st)
  case Nil
  then show ?case by simp
next
  case (Cons ev evs)
  have "sources_started (playback_step_App ev st)"
    using Cons.prems
    by (cases ev)
      (simp_all add: sources_started_audio sources_started_ended sources_started_interrupted)
  then show ?case
    using Cons.IH by simp
qed

lemma sources_started_reachable: "sources_started (playback_run_App evs fresh_playback)"
  unfolding playback_run_App_def
  by (rule sources_started_fold) (simp add: sources_started_def fresh_playback_def)

text \<open>
  Claim C3 (interrupt postcondition). In the assistant view, for every state: after the
  interrupted branch the set is empty, \<open>nextStartTime\<close> is \<open>0\<close>, every source of the set
  that was playing is stopped, a source that had already ended is left as it was, and no
  source of the set is playing. In \<^verbatim>\<open>App.tsx\<close> the same holds in every state in which
  the sources of the set have been started, which is every state the scheduler reaches
  (\<open>sources_started_reachable\<close>).
\<close>

theorem interrupt_postcondition:
  "sources (interrupted_branch st) = []
   \<and> nextStartTime (interrupted_branch st) = 0
   \<and> (\<forall>h. nodes (interrupted_branch st) h
             = (if h \<in> set (sources st) then stopped (nodes st h) else nodes st h))
   \<and> (\<forall>h \<in> set (sources st). status (nodes (interrupted_branch st) h) \<noteq> Started)
   \<and> (sources_started sa \<longrightarrow>
        interrupted_branch_App sa =
          (sa \<lparr> nodes := (\<lambda>h. if h \<in> set (sources sa) then stopped (nodes sa h)
                                else nodes sa h),
                sources := [], nextStartTime := 0 \<rparr>, None)
        \<and> (\<forall>h \<in> set (sources sa).
              status (nodes (fst (interrupted_branch_App sa)) h) \<noteq> Started))"
proof -
  have n: "stop_each ss ns = (\<lambda>h. if h \<in> set ss then stopped (ns h) else ns h)" for ss ns
    by (rule ext) (rule stop_each_nodes)
  have s: "status (stopped m) \<noteq> Started" for m
    by (simp add: stopped_def)
  show ?thesis
  proof (intro conjI impI)
    assume a: "sources_started sa"
    show "interrupted_branch_App sa =
          (sa \<lparr> nodes := (\<lambda>h. if h \<in> set (sources sa) then stopped (nodes sa h)
                                else nodes sa h),
                sources := [], nextStartTime := 0 \<rparr>, None)"
      by (simp add: interrupted_branch_App_started [OF a] n)
    show "\<forall>h \<in> set (sources sa).
              status (nodes (fst (interrupted_branch_App sa)) h) \<noteq> Started"
      by (simp add: interrupted_branch_App_started [OF a] n s)
  qed (simp_all add: interrupted_branch_def n s)
qed

theorem interrupt_postcondition_witness:
  "sources_started two_in_flight
   \<and> sources (fst (interrupted_branch_App two_in_flight)) = []
   \<and> nextStartTime (fst (interrupted_branch_App two_in_flight)) = 0
   \<and> snd (interrupted_branch_App two_in_flight) = None
   \<and> status (nodes (fst (interrupted_branch_App two_in_flight)) 0) = Ended
   \<and> status (nodes (fst (interrupted_branch_App two_in_flight)) 1) = Stopped
   \<and> sources (interrupted_branch (playback.extend two_in_flight
          \<lparr> isSpeaking = True, isThinking = False \<rparr>)) = []"
  using interrupt_postcondition [of "playback.extend two_in_flight
      \<lparr> isSpeaking = True, isThinking = False \<rparr>" two_in_flight]
  by (simp add: two_in_flight_def sources_started_def stopped_def)

section \<open>Properties: transcript assembler\<close>

lemma run_events_append: "run_events (xs @ ys) st = run_events ys (run_events xs st)"
  by (simp add: run_events_def)

lemma onmessage_partial_user:
  "onmessage (event_message (Partial User s)) st =
     st \<lparr> userTextBuffer := userTextBuffer st @ s, currentTurnUserText := userTextBuffer st @ s \<rparr>"
  by (simp add: onmessage_def no_content_def inputTranscription_branch_def
      text_or_undefined_def Let_def)

lemma onmessage_partial_ai:
  "onmessage (event_message (Partial Ai s)) st =
     st \<lparr> aiTextBuffer := aiTextBuffer st @ s, currentTurnAiText := aiTextBuffer st @ s \<rparr>"
  by (simp add: onmessage_def no_content_def outputTranscription_branch_def
      text_or_undefined_def Let_def)

lemma onmessage_turn_complete:
  "onmessage (event_message TurnComplete) st = turnComplete_branch st"
  by (simp add: onmessage_def no_content_def Let_def)

lemma messages_turnComplete_branch:
  "messages (turnComplete_branch st) = messages (flush_turn st)"
  "userTextBuffer (turnComplete_branch st) = []"
  "aiTextBuffer (turnComplete_branch st) = []"
  by (simp_all add: turnComplete_branch_def flush_turn_def speak_def Let_def)

lemma run_partials:
  "messages (run_events (partial_events ps) st) = messages st
   \<and> userTextBuffer (run_events (partial_events ps) st) = userTextBuffer st @ said User ps
   \<and> aiTextBuffer (run_events (partial_events ps) st) = aiTextBuffer st @ said Ai ps"
proof (induction ps arbitrary: st)
  case Nil
  then show ?case by (simp add: run_events_def partial_events_def said_def)
next
  case (Cons p ps)
  obtain r s where p: "p = (r, s)" by (cases p)
  have step: "run_events (partial_events (p # ps)) st
                = run_events (partial_events ps) (onmessage (event_message (Partial r s)) st)"
    by (simp add: run_events_def partial_events_def p)
  show ?case
  proof (cases r)
    case User
    then show ?thesis
      unfolding step using Cons.IH [of "onmessage (event_message (Partial r s)) st"]
      by (simp add: onmessage_partial_user said_def p del: event_message.simps)
  next
    case Ai
    then show ?thesis
      unfolding step using Cons.IH [of "onmessage (event_message (Partial r s)) st"]
      by (simp add: onmessage_partial_ai said_def p del: event_message.simps)
  qed
qed

lemma run_turn:
  assumes "userTextBuffer st = []" and "aiTextBuffer st = []"
  shows "messages (run_events (turn_events ps) st) = messages st @ flushed ps
         \<and> userTextBuffer (run_events (turn_events ps) st) = []
         \<and> aiTextBuffer (run_events (turn_events ps) st) = []"
proof -
  let ?st1 = "run_events (partial_events ps) st"
  have r: "run_events (turn_events ps) st = turnComplete_branch ?st1"
    by (simp add: turn_events_def run_events_append)
      (simp add: run_events_def onmessage_turn_complete del: event_message.simps)
  have b: "messages ?st1 = messages st" "userTextBuffer ?st1 = said User ps"
    "aiTextBuffer ?st1 = said Ai ps"
    using run_partials [of ps st] assms by simp_all
  show ?thesis
    unfolding r by (simp add: messages_turnComplete_branch) (simp add: flush_turn_def b flushed_def Let_def)
qed

lemma run_turns:
  assumes "userTextBuffer st = []" and "aiTextBuffer st = []"
  shows "messages (run_events (concat (map turn_events ts)) st) = messages st @ concat (map flushed ts)
         \<and> userTextBuffer (run_events (concat (map turn_events ts)) st) = []
         \<and> aiTextBuffer (run_events (concat (map turn_events ts)) st) = []"
  using assms
proof (induction ts arbitrary: st)
  case Nil
  then show ?case by (simp add: run_events_def)
next
  case (Cons ps ts)
  let ?st1 = "run_events (turn_events ps) st"
  have t: "messages ?st1 = messages st @ flushed ps" "userTextBuffer ?st1 = []"
    "aiTextBuffer ?st1 = []"
    using run_turn [OF Cons.prems, of ps] by simp_all
  show ?case
    using Cons.IH [OF t(2) t(3)] by (simp add: run_events_append t(1))
qed

lemma chatHistory_captions: "chatHistory (onmessage_captions m st) = chatHistory st"
  by (simp add: onmessage_captions_def Let_def split: option.splits)

lemma chatHistory_fold_captions: "chatHistory (fold onmessage_captions ms st) = chatHistory st"
  by (induction ms arbitrary: st) (simp_all add: chatHistory_captions)

lemma initial_view_buffers:
  "userTextBuffer initial_view = []" "aiTextBuffer initial_view = []"
  by (simp_all add: initial_view_def)

text \<open>
  Claim C4, amended: for every sequence of turns, each ended by a turn-complete event,
  followed by partial transcripts of an unfinished turn, and starting with empty buffers,
  the assistant view adds to its log, per turn and in this order, the trimmed concatenation
  of the turn's user fragments (if not empty after trimming) and the trimmed concatenation
  of its assistant fragments (if not empty after trimming); the unfinished turn stays in
  the buffers. The mini-companion of \<^verbatim>\<open>App.tsx\<close> adds nothing to its chat history.
\<close>

theorem transcript_flush:
  assumes "userTextBuffer st = []" and "aiTextBuffer st = []"
  shows "messages (run_events (concat (map turn_events ts) @ partial_events rest) st)
           = messages st @ concat (map flushed ts)
         \<and> userTextBuffer (run_events (concat (map turn_events ts) @ partial_events rest) st)
           = said User rest
         \<and> aiTextBuffer (run_events (concat (map turn_events ts) @ partial_events rest) st)
           = said Ai rest
         \<and> chatHistory (fold onmessage_captions
              (map event_message (concat (map turn_events ts) @ partial_events rest)) ca)
           = chatHistory ca"
proof -
  let ?st1 = "run_events (concat (map turn_events ts)) st"
  have t: "messages ?st1 = messages st @ concat (map flushed ts)" "userTextBuffer ?st1 = []"
    "aiTextBuffer ?st1 = []"
    using run_turns [OF assms, of ts] by simp_all
  show ?thesis
    using run_partials [of rest ?st1]
    by (simp add: run_events_append t chatHistory_fold_captions)
qed

theorem transcript_flush_witness:
  "userTextBuffer initial_view = [] \<and> aiTextBuffer initial_view = []
   \<and> messages (run_events
        [Partial User (js ''a''), Partial User (js ''b''), Partial Ai (js ''x''), TurnComplete,
         TurnComplete] initial_view)
       = messages initial_view
           @ [\<lparr> role = User, msgText = js ''ab'' \<rparr>, \<lparr> role = Ai, msgText = js ''x'' \<rparr>]"
  using transcript_flush [of initial_view
      "[[(User, js ''a''), (User, js ''b''), (Ai, js ''x'')], []]" "[]" initial_voice]
  by (simp add: initial_view_buffers turn_events_def partial_events_def flushed_def said_def
      trim_def js_def js_whitespace_def)

text \<open>
  Claim C4 as stated (the flushed message is the concatenation of the fragments) fails
  for a fragment with leading white space: the turn \<open>[partial-user " a", turn-complete]\<close>
  adds the user message \<open>"a"\<close>, not \<open>" a"\<close>.
\<close>

theorem transcript_flush_counterexample:
  "messages (run_events [Partial User (js '' a''), TurnComplete] initial_view)
     = messages initial_view @ [\<lparr> role = User, msgText = js ''a'' \<rparr>]
   \<and> js ''a'' \<noteq> js '' a''"
  using run_turn [of initial_view "[(User, js '' a'')]"]
  by (simp add: initial_view_buffers turn_events_def partial_events_def flushed_def said_def
      trim_def js_def js_whitespace_def)

lemma last_dropWhile: "dropWhile P xs \<noteq> [] \<Longrightarrow> last (dropWhile P xs) = last xs"
  by (induction xs) (auto split: if_splits)

lemma trim_trimmed: "trim s \<noteq> [] \<Longrightarrow> trimmed (trim s)"
proof -
  let ?d = "dropWhile js_whitespace s"
  let ?r = "dropWhile js_whitespace (rev ?d)"
  assume "trim s \<noteq> []"
  then have r: "?r \<noteq> []" by (simp add: trim_def)
  have d: "?d \<noteq> []"
  proof
    assume e: "?d = []"
    have "?r = []" unfolding e by simp
    with r show False by contradiction
  qed
  have 1: "\<not> js_whitespace (hd ?r)" using r by (rule hd_dropWhile)
  have 2: "\<not> js_whitespace (hd ?d)" using d by (rule hd_dropWhile)
  have "last ?r = last (rev ?d)" using r by (rule last_dropWhile)
  then have 3: "last ?r = hd ?d" using d by (simp add: last_rev)
  have "hd (trim s) = last ?r" "last (trim s) = hd ?r"
    using r by (simp_all add: trim_def hd_rev last_rev)
  with 1 2 3 r show ?thesis by (simp add: trimmed_def trim_def)
qed

lemma trim_whitespace: "list_all js_whitespace s \<Longrightarrow> trim s = []"
proof -
  assume "list_all js_whitespace s"
  then have e: "dropWhile js_whitespace s = []"
    by (simp only: dropWhile_eq_Nil_conv list_all_iff)
  show ?thesis
    unfolding trim_def e by simp
qed

lemma flush_turn_new:
  "\<exists>new. messages (flush_turn st) = messages st @ new
          \<and> list_all (\<lambda>m. trimmed (msgText m)) new"
proof -
  let ?new = "(if trim (userTextBuffer st) \<noteq> []
                then [\<lparr> role = User, msgText = trim (userTextBuffer st) \<rparr>] else [])
              @ (if trim (aiTextBuffer st) \<noteq> []
                then [\<lparr> role = Ai, msgText = trim (aiTextBuffer st) \<rparr>] else [])"
  have "messages (flush_turn st) = messages st @ ?new"
    by (simp add: flush_turn_def Let_def)
  moreover have "list_all (\<lambda>m. trimmed (msgText m)) ?new"
    by (simp add: trim_trimmed)
  ultimately show ?thesis by blast
qed

lemma onmessage_new:
  "\<exists>new. messages (onmessage m st) = messages st @ new
          \<and> list_all (\<lambda>m. trimmed (msgText m)) new"
proof (cases m)
  case None
  then show ?thesis by (simp add: onmessage_def)
next
  case (Some sc)
  let ?st1 = "case inputTranscription sc of
                None \<Rightarrow> st | Some t \<Rightarrow> inputTranscription_branch t st"
  let ?st2 = "case outputTranscription sc of
                None \<Rightarrow> ?st1 | Some t \<Rightarrow> outputTranscription_branch t ?st1"
  have m2: "messages ?st2 = messages st"
    by (simp add: inputTranscription_branch_def outputTranscription_branch_def Let_def
        split: option.splits)
  show ?thesis
  proof (cases "turnComplete sc")
    case True
    obtain new where "messages (flush_turn ?st2) = messages ?st2 @ new"
      "list_all (\<lambda>m. trimmed (msgText m)) new"
      using flush_turn_new [of ?st2] by blast
    then show ?thesis
      using Some True m2 by (simp add: onmessage_def Let_def messages_turnComplete_branch)
  next
    case False
    then show ?thesis
      using Some m2 by (simp add: onmessage_def Let_def)
  qed
qed

lemma fold_onmessage_new:
  "\<exists>new. messages (fold onmessage ms st) = messages st @ new
          \<and> list_all (\<lambda>m. trimmed (msgText m)) new"
proof (induction ms arbitrary: st)
  case Nil
  then show ?case by simp
next
  case (Cons m ms)
  obtain n1 where n1: "messages (onmessage m st) = messages st @ n1"
    "list_all (\<lambda>m. trimmed (msgText m)) n1"
    using onmessage_new [of m st] by blast
  obtain n2 where n2: "messages (fold onmessage ms (onmessage m st)) = messages (onmessage m st) @ n2"
    "list_all (\<lambda>m. trimmed (msgText m)) n2"
    using Cons [of "onmessage m st"] by blast
  have "messages (fold onmessage (m # ms) st) = messages st @ (n1 @ n2)"
    using n1 n2 by simp
  moreover have "list_all (\<lambda>m. trimmed (msgText m)) (n1 @ n2)"
    using n1 n2 by simp
  ultimately show ?case by blast
qed

lemma trim_decomposition:
  "s = takeWhile js_whitespace s @ trim s
         @ rev (takeWhile js_whitespace (rev (dropWhile js_whitespace s)))"
proof -
  let ?d = "dropWhile js_whitespace s"
  have "?d = rev (takeWhile js_whitespace (rev ?d) @ dropWhile js_whitespace (rev ?d))"
    by (simp only: takeWhile_dropWhile_id rev_rev_ident)
  also have "\<dots> = rev (dropWhile js_whitespace (rev ?d)) @ rev (takeWhile js_whitespace (rev ?d))"
    by (rule rev_append)
  finally have d: "?d = trim s @ rev (takeWhile js_whitespace (rev ?d))"
    by (simp only: trim_def)
  have "s = takeWhile js_whitespace s @ ?d" by simp
  with d show ?thesis by simp
qed

lemma list_all_takeWhile: "list_all P (takeWhile P xs)"
  by (induction xs) simp_all

lemma trim_characterised:
  "\<exists>pre post. s = pre @ trim s @ post
      \<and> list_all js_whitespace pre \<and> list_all js_whitespace post
      \<and> (trim s = [] \<or> (\<not> js_whitespace (hd (trim s)) \<and> \<not> js_whitespace (last (trim s))))"
proof -
  let ?pre = "takeWhile js_whitespace s"
  let ?post = "rev (takeWhile js_whitespace (rev (dropWhile js_whitespace s)))"
  have 1: "s = ?pre @ trim s @ ?post" by (rule trim_decomposition)
  have 2: "list_all js_whitespace ?pre" by (rule list_all_takeWhile)
  have "list_all js_whitespace (takeWhile js_whitespace (rev (dropWhile js_whitespace s)))"
    by (rule list_all_takeWhile)
  then have 3: "list_all js_whitespace ?post" by (simp add: list_all_iff)
  have 4: "trim s = [] \<or> (\<not> js_whitespace (hd (trim s)) \<and> \<not> js_whitespace (last (trim s)))"
    using trim_trimmed [of s] by (auto simp add: trimmed_def)
  from 1 2 3 4 show ?thesis by blast
qed

lemma messages_flush_turn:
  "messages (flush_turn st) = messages st
     @ (if trim (userTextBuffer st) = [] then []
        else [\<lparr> role = User, msgText = trim (userTextBuffer st) \<rparr>])
     @ (if trim (aiTextBuffer st) = [] then []
        else [\<lparr> role = Ai, msgText = trim (aiTextBuffer st) \<rparr>])"
  by (simp add: flush_turn_def Let_def)

text \<open>
  Claim C10 (white-space-only turns emit nothing and flushed text is trimmed). In both
  assistant views a turn-complete appends to the log the user buffer with its leading and
  trailing white space removed, as a user message, unless nothing is left of it, then
  likewise the assistant buffer as an assistant message, and empties both buffers. What
  \<^verbatim>\<open>trim\<close> leaves of a string \<open>s\<close> is \<open>s\<close> without a prefix and a suffix of white space
  only, and is empty or neither starts nor ends with white space (the white space and
  line terminators of the language; \<open>U+0085\<close>, \<open>U+200B\<close> and \<open>U+180E\<close> are none).
  Consequently a turn-complete with
  buffers of white space only leaves the log as it is, and every message that a
  turn-complete, or any sequence of inbound messages, adds to the log is non-empty and
  neither starts nor ends with white space.
\<close>

theorem flush_trims:
  "messages (turnComplete_branch st) = messages st
     @ (if trim (userTextBuffer st) = [] then []
        else [\<lparr> role = User, msgText = trim (userTextBuffer st) \<rparr>])
     @ (if trim (aiTextBuffer st) = [] then []
        else [\<lparr> role = Ai, msgText = trim (aiTextBuffer st) \<rparr>])
   \<and> userTextBuffer (turnComplete_branch st) = [] \<and> aiTextBuffer (turnComplete_branch st) = []
   \<and> messages (snd (turnComplete_branch_live (ui, tr))) = messages tr
     @ (if trim (userTextBuffer tr) = [] then []
        else [\<lparr> role = User, msgText = trim (userTextBuffer tr) \<rparr>])
     @ (if trim (aiTextBuffer tr) = [] then []
        else [\<lparr> role = Ai, msgText = trim (aiTextBuffer tr) \<rparr>])
   \<and> userTextBuffer (snd (turnComplete_branch_live (ui, tr))) = []
   \<and> aiTextBuffer (snd (turnComplete_branch_live (ui, tr))) = []
   \<and> (\<exists>pre post. s = pre @ trim s @ post
         \<and> list_all js_whitespace pre \<and> list_all js_whitespace post
         \<and> (trim s = [] \<or> (\<not> js_whitespace (hd (trim s)) \<and> \<not> js_whitespace (last (trim s)))))
   \<and> trim [32, 9, 10, 160, 65279, 104, 32, 105, 12288, 8232, 13] = [104, 32, 105]
   \<and> trim [8203, 97, 32] = [8203, 97]
   \<and> trim ([9, 10, 11, 12, 13, 32, 160, 5760, 8192, 8202, 8232, 8233, 8239, 8287, 12288, 65279]
            @ [133, 8203, 6158] @ [8197, 8193])
        = [133, 8203, 6158]
   \<and> (list_all js_whitespace (userTextBuffer st) \<and> list_all js_whitespace (aiTextBuffer st) \<longrightarrow>
      messages (turnComplete_branch st) = messages st)
   \<and> (list_all js_whitespace (userTextBuffer tr) \<and> list_all js_whitespace (aiTextBuffer tr) \<longrightarrow>
      messages (snd (turnComplete_branch_live (ui, tr))) = messages tr)
   \<and> (\<exists>new. messages (turnComplete_branch st) = messages st @ new
          \<and> list_all (\<lambda>m. trimmed (msgText m)) new)
   \<and> (\<exists>new. messages (snd (turnComplete_branch_live (ui, tr))) = messages tr @ new
          \<and> list_all (\<lambda>m. trimmed (msgText m)) new)
   \<and> (\<exists>new. messages (fold onmessage ms st) = messages st @ new
          \<and> list_all (\<lambda>m. trimmed (msgText m)) new)"
proof (intro conjI impI)
  show "messages (turnComplete_branch st) = messages st
     @ (if trim (userTextBuffer st) = [] then []
        else [\<lparr> role = User, msgText = trim (userTextBuffer st) \<rparr>])
     @ (if trim (aiTextBuffer st) = [] then []
        else [\<lparr> role = Ai, msgText = trim (aiTextBuffer st) \<rparr>])"
    by (simp add: messages_turnComplete_branch messages_flush_turn)
next
  show "userTextBuffer (turnComplete_branch st) = []"
    by (simp add: turnComplete_branch_def flush_turn_def speak_def Let_def)
next
  show "aiTextBuffer (turnComplete_branch st) = []"
    by (simp add: turnComplete_branch_def flush_turn_def speak_def Let_def)
next
  show "messages (snd (turnComplete_branch_live (ui, tr))) = messages tr
     @ (if trim (userTextBuffer tr) = [] then []
        else [\<lparr> role = User, msgText = trim (userTextBuffer tr) \<rparr>])
     @ (if trim (aiTextBuffer tr) = [] then []
        else [\<lparr> role = Ai, msgText = trim (aiTextBuffer tr) \<rparr>])"
    by (simp add: turnComplete_branch_live_def messages_flush_turn)
next
  show "userTextBuffer (snd (turnComplete_branch_live (ui, tr))) = []"
    by (simp add: turnComplete_branch_live_def flush_turn_def Let_def)
next
  show "aiTextBuffer (snd (turnComplete_branch_live (ui, tr))) = []"
    by (simp add: turnComplete_branch_live_def flush_turn_def Let_def)
next
  show "\<exists>pre post. s = pre @ trim s @ post
         \<and> list_all js_whitespace pre \<and> list_all js_whitespace post
         \<and> (trim s = [] \<or> (\<not> js_whitespace (hd (trim s)) \<and> \<not> js_whitespace (last (trim s))))"
    by (rule trim_characterised)
next
  show "trim [32, 9, 10, 160, 65279, 104, 32, 105, 12288, 8232, 13] = [104, 32, 105]"
    by (simp add: trim_def js_whitespace_def)
next
  show "trim [8203, 97, 32] = [8203, 97]"
    by (simp add: trim_def js_whitespace_def)
next
  show "trim ([9, 10, 11, 12, 13, 32, 160, 5760, 8192, 8202, 8232, 8233, 8239, 8287, 12288, 65279]
            @ [133, 8203, 6158] @ [8197, 8193])
        = [133, 8203, 6158]"
    by (simp add: trim_def js_whitespace_def)
next
  assume "list_all js_whitespace (userTextBuffer st) \<and> list_all js_whitespace (aiTextBuffer st)"
  then show "messages (turnComplete_branch st) = messages st"
    by (simp add: messages_turnComplete_branch flush_turn_def trim_whitespace Let_def)
next
  assume "list_all js_whitespace (userTextBuffer tr) \<and> list_all js_whitespace (aiTextBuffer tr)"
  then show "messages (snd (turnComplete_branch_live (ui, tr))) = messages tr"
    by (simp add: turnComplete_branch_live_def flush_turn_def trim_whitespace Let_def)
next
  show "\<exists>new. messages (turnComplete_branch st) = messages st @ new
          \<and> list_all (\<lambda>m. trimmed (msgText m)) new"
    using flush_turn_new [of st] by (simp add: messages_turnComplete_branch)
next
  show "\<exists>new. messages (snd (turnComplete_branch_live (ui, tr))) = messages tr @ new
          \<and> list_all (\<lambda>m. trimmed (msgText m)) new"
    using flush_turn_new [of tr] by (simp add: turnComplete_branch_live_def)
next
  show "\<exists>new. messages (fold onmessage ms st) = messages st @ new
          \<and> list_all (\<lambda>m. trimmed (msgText m)) new"
    by (rule fold_onmessage_new)
qed

theorem flush_trims_witness:
  "(list_all js_whitespace (userTextBuffer whitespace_turn)
      \<and> list_all js_whitespace (aiTextBuffer whitespace_turn))
   \<and> messages (turnComplete_branch whitespace_turn) = messages whitespace_turn
   \<and> messages (snd (turnComplete_branch_live (initial_live, whitespace_turn)))
        = messages whitespace_turn
   \<and> messages (turnComplete_branch spaced_turn)
        = messages initial_view
          @ [\<lparr> role = User, msgText = js ''hi  there'' \<rparr>, \<lparr> role = Ai, msgText = js ''ok'' \<rparr>]
   \<and> messages (snd (turnComplete_branch_live (initial_live, spaced_turn)))
        = messages initial_view
          @ [\<lparr> role = User, msgText = js ''hi  there'' \<rparr>, \<lparr> role = Ai, msgText = js ''ok'' \<rparr>]
   \<and> userTextBuffer (turnComplete_branch spaced_turn) = []
   \<and> (js '' hi  there  '' = [32] @ trim (js '' hi  there  '') @ [32, 32]
       \<and> \<not> js_whitespace (hd (trim (js '' hi  there  '')))
       \<and> \<not> js_whitespace (last (trim (js '' hi  there  ''))))"
  using flush_trims [of whitespace_turn initial_live whitespace_turn "js '' hi  there  ''" "[]"]
    flush_trims [of spaced_turn initial_live spaced_turn "js '' hi  there  ''" "[]"]
  by (simp add: whitespace_turn_def spaced_turn_def js_def js_whitespace_def trim_def)

section \<open>Properties: session transport\<close>

lemma captured_append: "captured (xs @ ys) = captured xs @ captured ys"
  by (induction xs rule: captured.induct) simp_all

lemma uplink_pending:
  assumes "promise st = Pending q" and "microtasks st = []"
    and "Refused \<notin> set evs" and "Acknowledged \<notin> set evs"
  shows "promise (uplink_run evs st) = Pending (q @ captured evs)
         \<and> calls (uplink_run evs st) = calls st
         \<and> microtasks (uplink_run evs st) = []"
  using assms
proof (induction evs arbitrary: st q)
  case Nil
  then show ?case by (simp add: uplink_run_def)
next
  case (Cons ev evs)
  from Cons.prems obtain d where ev: "ev = AudioProcess d"
    by (cases ev) auto
  let ?st1 = "uplink_task ev st"
  have 1: "promise ?st1 = Pending (q @ [RealtimeInput (createBlob d)])"
    "microtasks ?st1 = []" "calls ?st1 = calls st"
    using Cons.prems(1,2)
    by (simp_all add: ev onaudioprocess_def promise_then_def run_microtasks_def Let_def)
  have "promise (uplink_run evs ?st1) = Pending ((q @ [RealtimeInput (createBlob d)]) @ captured evs)
         \<and> calls (uplink_run evs ?st1) = calls ?st1
         \<and> microtasks (uplink_run evs ?st1) = []"
    using 1(1,2) Cons.prems(3,4) by (intro Cons.IH) simp_all
  then show ?case
    using 1(3) by (simp add: uplink_run_def ev)
qed

lemma uplink_fulfilled:
  assumes "promise st = Fulfilled" and "microtasks st = []"
  shows "calls (uplink_run evs st) = calls st @ captured evs
         \<and> promise (uplink_run evs st) = Fulfilled
         \<and> microtasks (uplink_run evs st) = []"
  using assms
proof (induction evs arbitrary: st)
  case Nil
  then show ?case by (simp add: uplink_run_def)
next
  case (Cons ev evs)
  let ?st1 = "uplink_task ev st"
  have 1: "promise ?st1 = Fulfilled" "microtasks ?st1 = []"
    "calls ?st1 = calls st @ captured [ev]"
    using Cons.prems
    by (cases ev; simp add: onaudioprocess_def promise_then_def promise_fulfil_def
        promise_reject_def run_microtasks_def Let_def)+
  have "calls (uplink_run evs ?st1) = calls ?st1 @ captured evs
         \<and> promise (uplink_run evs ?st1) = Fulfilled
         \<and> microtasks (uplink_run evs ?st1) = []"
    using 1(1,2) by (rule Cons.IH)
  then show ?case
    using captured_append [of "[ev]" evs] 1(3) by (simp add: uplink_run_def)
qed

lemma uplink_run_append: "uplink_run (xs @ ys) st = uplink_run ys (uplink_run xs st)"
  by (simp add: uplink_run_def)

lemma uplink_acknowledged:
  assumes "promise st = Pending q" and "microtasks st = []" and "Refused \<notin> set pre"
  shows "calls (uplink_run (pre @ Acknowledged # post) st) = calls st @ q @ captured (pre @ post)"
  using assms
proof (induction pre arbitrary: st q)
  case Nil
  let ?st1 = "uplink_task Acknowledged st"
  have 1: "promise ?st1 = Fulfilled" "microtasks ?st1 = []" "calls ?st1 = calls st @ q"
    using Nil by (simp_all add: promise_fulfil_def run_microtasks_def)
  show ?case
    using uplink_fulfilled [OF 1(1,2), of post] 1(3) by (simp add: uplink_run_def)
next
  case (Cons ev pre)
  from Cons.prems(3) have nr: "ev \<noteq> Refused" "Refused \<notin> set pre" by auto
  show ?case
  proof (cases ev)
    case (AudioProcess d)
    let ?st1 = "uplink_task ev st"
    have 1: "promise ?st1 = Pending (q @ [RealtimeInput (createBlob d)])"
      "microtasks ?st1 = []" "calls ?st1 = calls st"
      using Cons.prems(1,2)
      by (simp_all add: AudioProcess onaudioprocess_def promise_then_def run_microtasks_def Let_def)
    have "calls (uplink_run (pre @ Acknowledged # post) ?st1)
            = calls ?st1 @ (q @ [RealtimeInput (createBlob d)]) @ captured (pre @ post)"
      using 1(1,2) nr(2) by (rule Cons.IH)
    then show ?thesis
      using 1(3) by (simp add: uplink_run_def AudioProcess)
  next
    case Acknowledged
    let ?st1 = "uplink_task Acknowledged st"
    have 1: "promise ?st1 = Fulfilled" "microtasks ?st1 = []" "calls ?st1 = calls st @ q"
      using Cons.prems(1,2) by (simp_all add: promise_fulfil_def run_microtasks_def)
    have "calls (uplink_run (pre @ Acknowledged # post) ?st1)
            = calls ?st1 @ captured (pre @ Acknowledged # post)"
      using uplink_fulfilled [OF 1(1,2)] by blast
    then show ?thesis
      using 1(3) by (simp add: uplink_run_def Acknowledged captured_append)
  next
    case Refused
    with nr show ?thesis by simp
  qed
qed

text \<open>
  Claim C5 (no frame loss before the connection is acknowledged, order preserved). As
  long as the connection promise is pending and not refused, every captured frame is held,
  in capture order, in the promise's reaction list and none is dropped. Once the promise
  is fulfilled, the session has received exactly the frames captured before and after the
  acknowledgment, each once, in capture order.
\<close>

theorem frames_in_order:
  "(Refused \<notin> set pre \<and> Acknowledged \<notin> set pre \<longrightarrow>
      promise (uplink_run pre new_connection) = Pending (captured pre)
      \<and> calls (uplink_run pre new_connection) = [])
   \<and> (Refused \<notin> set pre \<longrightarrow>
      calls (uplink_run (pre @ Acknowledged # post) new_connection) = captured (pre @ post))"
proof (intro conjI impI)
  assume a: "Refused \<notin> set pre \<and> Acknowledged \<notin> set pre"
  have p: "promise new_connection = Pending []" "microtasks new_connection = []"
    by (simp_all add: new_connection_def)
  from a have r: "Refused \<notin> set pre" and k: "Acknowledged \<notin> set pre" by simp_all
  show "promise (uplink_run pre new_connection) = Pending (captured pre)"
    using uplink_pending [OF p r k] by simp
  show "calls (uplink_run pre new_connection) = []"
    using uplink_pending [OF p r k] by (simp add: new_connection_def)
next
  assume r: "Refused \<notin> set pre"
  have p: "promise new_connection = Pending []" "microtasks new_connection = []"
    by (simp_all add: new_connection_def)
  show "calls (uplink_run (pre @ Acknowledged # post) new_connection) = captured (pre @ post)"
    using uplink_acknowledged [OF p r, of post] by (simp add: new_connection_def)
qed

theorem frames_in_order_witness:
  "(Refused \<notin> set [AudioProcess [0, 1 / 2], AudioProcess [1 / 4]]
      \<and> Acknowledged \<notin> set [AudioProcess [0, 1 / 2], AudioProcess [1 / 4]])
   \<and> promise (uplink_run [AudioProcess [0, 1 / 2], AudioProcess [1 / 4]] new_connection)
        = Pending [RealtimeInput (createBlob [0, 1 / 2]), RealtimeInput (createBlob [1 / 4])]
   \<and> calls (uplink_run
        [AudioProcess [0, 1 / 2], AudioProcess [1 / 4], Acknowledged, AudioProcess [- 1]]
        new_connection)
        = [RealtimeInput (createBlob [0, 1 / 2]), RealtimeInput (createBlob [1 / 4]),
           RealtimeInput (createBlob [- 1])]"
  using frames_in_order [of "[AudioProcess [0, 1 / 2], AudioProcess [1 / 4]]" "[AudioProcess [- 1]]"]
  by simp

section \<open>Properties: tool calls\<close>











section \<open>Properties: teardown\<close>







section \<open>Properties: session lifecycle\<close>

text \<open>
  Claim C8 (single-session invariant) does not hold in the assistant view. The user
  starts a session, the connection opens, the remote end closes it (\<^verbatim>\<open>onclose\<close> sets
  the view inactive and releases nothing), the user starts again and the second
  connection opens: the first microphone stream was never stopped and its ref has been
  overwritten, so two microphone streams and two processor nodes are live, with one
  connection open.
\<close>

theorem second_start_leaks_microphone:
  "liveTracks (surface_run
       [ToggleLiveMode Granted, ConnectionOpened 0, ConnectionClosed 0,
        ToggleLiveMode Granted, ConnectionOpened 1] mounted) = {0, 1}
   \<and> connectedProcessors (surface_run
       [ToggleLiveMode Granted, ConnectionOpened 0, ConnectionClosed 0,
        ToggleLiveMode Granted, ConnectionOpened 1] mounted) = {0, 1}
   \<and> streamRef (surface_run
       [ToggleLiveMode Granted, ConnectionOpened 0, ConnectionClosed 0,
        ToggleLiveMode Granted, ConnectionOpened 1] mounted) = Some 1
   \<and> open_connections (surface_run
       [ToggleLiveMode Granted, ConnectionOpened 0, ConnectionClosed 0,
        ToggleLiveMode Granted, ConnectionOpened 1] mounted) = [1]"
  by (simp add: surface_run_def mounted_def toggleLiveMode_def startLiveSession_def
      onopen_def onclose_def drain_def resume_stops_def new_connection_def promise_fulfil_def
      run_microtasks_def open_connections_def insert_commute)

end
